theory Spec2Isabelle
  imports Complex_Main "HOL-Library.Log_Nat"
begin

section \<open>JavaScript numbers\<close>

text \<open>
  Every numeric value of the front end is a JavaScript \<^verbatim>\<open>number\<close>: an IEEE 754 binary64
  value. A finite one is the rational it denotes; the two infinities and NaN are values of
  their own. The sign of zero is not kept (\<open>-0\<close> and \<open>+0\<close> are both \<open>Fin 0\<close>): it shows
  only in the sign of a nonzero number divided by zero, which no code modelled here does.
\<close>

datatype number = Fin rat | PInf | NInf | NaN

text \<open>
  \<open>floor_log2 x\<close> is the exponent \<open>e\<close> with \<open>2 powi e \<le> x < 2 powi (e + 1)\<close> of a
  positive rational, computed from the bit lengths of numerator and denominator.
\<close>

definition floor_log2 :: "rat \<Rightarrow> int" where
  "floor_log2 x =
     (let (p, q) = quotient_of x; e = bitlen p - bitlen q
      in if 2 powi e \<le> x then e else e - 1)"

text \<open>
  The spacing of binary64 values around \<open>x\<close>: 53 significant bits in the normal range,
  \<open>2 powi - 1074\<close> in the subnormal range (exponent below \<open>- 1022\<close>).
\<close>

definition ulp :: "rat \<Rightarrow> rat" where
  "ulp x = 2 powi (max (floor_log2 \<bar>x\<bar>) (- 1022) - 52)"

definition round_half_even :: "rat \<Rightarrow> int" where
  "round_half_even q =
     (let n = \<lfloor>q\<rfloor>; r = q - of_int n
      in if r < 1 / 2 then n else if 1 / 2 < r then n + 1 else if even n then n else n + 1)"

text \<open>Round to nearest, ties to even, with unbounded exponent.\<close>

definition fl :: "rat \<Rightarrow> rat" where
  "fl x = (if x = 0 then 0 else of_int (round_half_even (x / ulp x)) * ulp x)"

text \<open>The result of an arithmetic operation whose exact value is \<open>x\<close>: overflow gives an infinity.\<close>

definition round_number :: "rat \<Rightarrow> number" where
  "round_number x =
     (let y = fl x
      in if 2 ^ 1024 \<le> y then PInf else if y \<le> - (2 ^ 1024) then NInf else Fin y)"

text \<open>The finite values of the type: the rationals that rounding leaves alone.\<close>

definition is_double :: "rat \<Rightarrow> bool" where
  "is_double x \<longleftrightarrow> fl x = x \<and> \<bar>x\<bar> < 2 ^ 1024"

fun js_add :: "number \<Rightarrow> number \<Rightarrow> number" where
  "js_add (Fin x) (Fin y) = round_number (x + y)"
| "js_add NaN b = NaN"
| "js_add a NaN = NaN"
| "js_add PInf NInf = NaN"
| "js_add NInf PInf = NaN"
| "js_add PInf b = PInf"
| "js_add NInf b = NInf"
| "js_add (Fin x) b = b"

fun js_sub :: "number \<Rightarrow> number \<Rightarrow> number" where
  "js_sub (Fin x) (Fin y) = round_number (x - y)"
| "js_sub NaN b = NaN"
| "js_sub a NaN = NaN"
| "js_sub PInf PInf = NaN"
| "js_sub NInf NInf = NaN"
| "js_sub PInf b = PInf"
| "js_sub NInf b = NInf"
| "js_sub (Fin x) PInf = NInf"
| "js_sub (Fin x) NInf = PInf"

fun js_mul :: "number \<Rightarrow> number \<Rightarrow> number" where
  "js_mul (Fin x) (Fin y) = round_number (x * y)"
| "js_mul NaN b = NaN"
| "js_mul a NaN = NaN"
| "js_mul (Fin x) PInf = (if x = 0 then NaN else if 0 < x then PInf else NInf)"
| "js_mul (Fin x) NInf = (if x = 0 then NaN else if 0 < x then NInf else PInf)"
| "js_mul PInf (Fin y) = (if y = 0 then NaN else if 0 < y then PInf else NInf)"
| "js_mul NInf (Fin y) = (if y = 0 then NaN else if 0 < y then NInf else PInf)"
| "js_mul PInf PInf = PInf"
| "js_mul NInf NInf = PInf"
| "js_mul PInf NInf = NInf"
| "js_mul NInf PInf = NInf"

fun js_div :: "number \<Rightarrow> number \<Rightarrow> number" where
  "js_div (Fin x) (Fin y) =
     (if y = 0 then (if x = 0 then NaN else if 0 < x then PInf else NInf)
      else round_number (x / y))"
| "js_div NaN b = NaN"
| "js_div a NaN = NaN"
| "js_div (Fin x) b = Fin 0"
| "js_div PInf (Fin y) = (if 0 \<le> y then PInf else NInf)"
| "js_div NInf (Fin y) = (if 0 \<le> y then NInf else PInf)"
| "js_div a b = NaN"

fun js_lt :: "number \<Rightarrow> number \<Rightarrow> bool" where
  "js_lt (Fin x) (Fin y) = (x < y)"
| "js_lt NaN b = False"
| "js_lt a NaN = False"
| "js_lt a NInf = False"
| "js_lt PInf b = False"
| "js_lt a b = True"

text \<open>A decimal literal of the source denotes the binary64 value nearest to it.\<close>

definition lit :: "rat \<Rightarrow> number" where
  "lit d = round_number d"

text \<open>
  \<^verbatim>\<open>x.toFixed(f)\<close> returns a string. \<open>Digits neg n f\<close> stands for the decimal numeral of
  \<open>n / 10 ^ f\<close> with \<open>f\<close> fraction digits, preceded by a minus sign when \<open>neg\<close>;
  \<open>Verbatim x\<close> for the cases where the method returns \<^verbatim>\<open>String(x)\<close> instead (a number
  that is not finite, or of magnitude \<open>10 ^ 21\<close> or more). The digits are those of the integer
  \<open>n\<close> nearest to \<open>\<bar>x\<bar> * 10 ^ f\<close>, the larger one of two equally near.
\<close>

datatype fixed = Digits bool nat nat | Verbatim number

fun toFixed :: "nat \<Rightarrow> number \<Rightarrow> fixed" where
  "toFixed f (Fin x) =
     (if 10 ^ 21 \<le> \<bar>x\<bar> then Verbatim (Fin x)
      else Digits (x < 0) (nat \<lfloor>\<bar>x\<bar> * 10 ^ f + 1 / 2\<rfloor>) f)"
| "toFixed f x = Verbatim x"

section \<open>The cost calculator (CostCalculator.tsx)\<close>

datatype error = TypeError

record price =
  aws :: number
  ours :: number

definition gpuPrices :: "string \<rightharpoonup> price" where
  "gpuPrices =
     [''T4'' \<mapsto> \<lparr>aws = lit (306 / 100), ours = lit (99 / 100)\<rparr>,
      ''A10G'' \<mapsto> \<lparr>aws = lit (512 / 100), ours = lit (199 / 100)\<rparr>,
      ''A100'' \<mapsto> \<lparr>aws = lit (1224 / 100), ours = lit (399 / 100)\<rparr>]"

text \<open>
  \<^verbatim>\<open>gpuPrices[gpuType]\<close> finds the entry of a key of the table. The table is an object
  literal, so it also inherits the properties of \<^verbatim>\<open>Object.prototype\<close>: for one of those
  names the lookup gives an object that has no \<^verbatim>\<open>aws\<close> and no \<^verbatim>\<open>ours\<close>, both read as
  \<^verbatim>\<open>undefined\<close>, which a multiplication converts to NaN. For every other string the lookup
  gives \<^verbatim>\<open>undefined\<close>, and reading \<^verbatim>\<open>.aws\<close> of it throws a TypeError.
\<close>

definition object_prototype_keys :: "string list" where
  "object_prototype_keys =
     [''constructor'', ''hasOwnProperty'', ''isPrototypeOf'', ''propertyIsEnumerable'',
      ''toLocaleString'', ''toString'', ''valueOf'', ''__proto__'', ''__defineGetter__'',
      ''__defineSetter__'', ''__lookupGetter__'', ''__lookupSetter__'']"

definition price_of :: "string \<Rightarrow> error + price" where
  "price_of gpuType =
     (case gpuPrices gpuType of
        Some p \<Rightarrow> Inr p
      | None \<Rightarrow>
          if gpuType \<in> set object_prototype_keys then Inr \<lparr>aws = NaN, ours = NaN\<rparr>
          else Inl TypeError)"

record costs =
  awsCost :: number
  ourCost :: number
  savings :: number
  savingsPercent :: fixed

definition CostCalculator :: "number \<Rightarrow> string \<Rightarrow> error + costs" where
  "CostCalculator hours gpuType =
     (case price_of gpuType of
        Inl e \<Rightarrow> Inl e
      | Inr p \<Rightarrow>
          (let awsCost = js_mul hours (aws p);
               ourCost = js_mul hours (ours p);
               savings = js_sub awsCost ourCost;
               savingsPercent = toFixed 0 (js_mul (js_div savings awsCost) (Fin 100))
           in Inr \<lparr>awsCost = awsCost, ourCost = ourCost, savings = savings,
                    savingsPercent = savingsPercent\<rparr>))"

text \<open>
  The contract of the calculator as the specification words it, over exact rationals: a
  price table of reference and platform prices per hour, two products, a difference and a
  rounded percentage.
\<close>

record spec_costs =
  provider_cost :: rat
  platform_cost :: rat
  spec_savings :: rat
  savings_percent :: int

definition spec_price :: "string \<rightharpoonup> rat \<times> rat" where
  "spec_price =
     [''T4'' \<mapsto> (306 / 100, 99 / 100),
      ''A10G'' \<mapsto> (512 / 100, 199 / 100),
      ''A100'' \<mapsto> (1224 / 100, 399 / 100)]"

definition spec_calculator :: "rat \<Rightarrow> string \<Rightarrow> spec_costs option" where
  "spec_calculator hours gpu_type =
     (case spec_price gpu_type of
        None \<Rightarrow> None
      | Some (reference, platform) \<Rightarrow>
          (let provider = hours * reference;
               platform = hours * platform;
               saved = provider - platform
           in Some \<lparr>provider_cost = provider, platform_cost = platform, spec_savings = saved,
                     savings_percent = round (saved / provider * 100)\<rparr>))"

section \<open>The dashboard's instance list\<close>

record Instance =
  id_inst :: string
  name :: string
  gpu_type :: string
  status :: string
  cost_per_hour :: number
  total_cost :: number
  savings_inst :: number
  gpu_utilization :: number
  uptime :: string
  public_ip :: string

definition initial_instances :: "Instance list" where
  "initial_instances =
     [\<lparr>id_inst = ''gpu-1'', name = ''Llama-3-Training'', gpu_type = ''A100'',
       status = ''running'', cost_per_hour = lit (399 / 100), total_cost = lit (12768 / 100),
       savings_inst = lit (8938 / 100), gpu_utilization = Fin 78, uptime = ''32h 15m'',
       public_ip = ''20.124.56.78''\<rparr>,
      \<lparr>id_inst = ''gpu-2'', name = ''Stable-Diffusion-XL'', gpu_type = ''A10G'',
       status = ''paused'', cost_per_hour = lit (199 / 100), total_cost = lit (4577 / 100),
       savings_inst = lit (3204 / 100), gpu_utilization = Fin 0, uptime = ''23h 0m'',
       public_ip = ''20.124.56.79''\<rparr>,
      \<lparr>id_inst = ''gpu-3'', name = ''Jupyter-Notebook'', gpu_type = ''T4'',
       status = ''running'', cost_per_hour = lit (99 / 100), total_cost = lit (1584 / 100),
       savings_inst = lit (1109 / 100), gpu_utilization = Fin 12, uptime = ''16h 0m'',
       public_ip = ''20.124.56.80''\<rparr>]"

text \<open>
  \<^verbatim>\<open>Math.random()\<close> is a source of finite numbers: \<open>rnd k\<close> is the value that its
  \<open>k\<close>-th call returns. The state of the page is the instance list and the number of calls
  made so far.
\<close>

type_synonym random_source = "nat \<Rightarrow> rat"

text \<open>
  The callback of \<^verbatim>\<open>prev.map\<close> in \<^verbatim>\<open>handleInstanceAction\<close>, run over the list from left
  to right; each resumed instance draws one random number.
\<close>

fun map_action :: "random_source \<Rightarrow> string \<Rightarrow> string \<Rightarrow> nat \<Rightarrow> Instance list
    \<Rightarrow> Instance list \<times> nat" where
  "map_action rnd i action k [] = ([], k)"
| "map_action rnd i action k (inst # rest) =
     (if id_inst inst = i \<and> action = ''pause'' then
        (let (rest', k') = map_action rnd i action k rest
         in (inst\<lparr>status := ''paused'', gpu_utilization := Fin 0\<rparr> # rest', k'))
      else if id_inst inst = i \<and> action = ''resume'' then
        (let (rest', k') = map_action rnd i action (Suc k) rest
         in (inst\<lparr>status := ''running'',
                        gpu_utilization := js_mul (Fin (rnd k)) (Fin 100)\<rparr> # rest', k'))
      else
        (let (rest', k') = map_action rnd i action k rest
         in (inst # rest', k')))"

text \<open>
  \<^verbatim>\<open>handleInstanceAction\<close> queues the \<^verbatim>\<open>map\<close> update and, for \<^verbatim>\<open>'delete'\<close>, the
  \<^verbatim>\<open>filter\<close> update after it; the updates run in that order on the previous state.
\<close>

definition handleInstanceAction :: "random_source \<Rightarrow> string \<Rightarrow> string
    \<Rightarrow> Instance list \<times> nat \<Rightarrow> Instance list \<times> nat" where
  "handleInstanceAction rnd i action st =
     (let (mapped, k') = map_action rnd i action (snd st) (fst st)
      in if action = ''delete'' then (filter (\<lambda>x. id_inst x \<noteq> i) mapped, k')
         else (mapped, k'))"

text \<open>A sequence of calls, each an id and an action.\<close>

fun run_actions :: "random_source \<Rightarrow> (string \<times> string) list
    \<Rightarrow> Instance list \<times> nat \<Rightarrow> Instance list \<times> nat" where
  "run_actions rnd [] st = st"
| "run_actions rnd ((i, action) # calls) st =
     run_actions rnd calls (handleInstanceAction rnd i action st)"

text \<open>The invariant the data model intends for one instance record.\<close>

definition inv_inst :: "Instance \<Rightarrow> bool" where
  "inv_inst x \<longleftrightarrow> (status x = ''paused'' \<longrightarrow> gpu_utilization x = Fin 0) \<and>
     (status x = ''running'' \<or> status x = ''paused'' \<or> status x = ''stopped'')"

section \<open>The landing page's savings counter\<close>

text \<open>The updater passed to \<^verbatim>\<open>setSavings\<close> on every tick of the interval timer.\<close>

definition tick :: "number \<Rightarrow> number" where
  "tick prev = (if js_lt prev (Fin 70) then js_add prev (Fin 1) else Fin 70)"



section \<open>Rounding to binary64\<close>

lemma pow2_less_iff: "(2::rat) powi a < 2 powi b \<longleftrightarrow> a < b"
proof
  assume l: "(2::rat) powi a < 2 powi b"
  show "a < b"
  proof (rule ccontr)
    assume "\<not> a < b"
    then have "b \<le> a" by simp
    then have "(2::rat) powi b \<le> 2 powi a" by (rule power_int_increasing) simp
    with l show False by simp
  qed
next
  assume "a < b"
  then show "(2::rat) powi a < 2 powi b" by (rule power_int_strict_increasing) simp
qed

lemma pow2_le_iff: "(2::rat) powi a \<le> 2 powi b \<longleftrightarrow> a \<le> b"
  using pow2_less_iff [of b a] by (simp add: not_less [symmetric])

lemma bitlen_rat_bounds:
  assumes "0 < p"
  shows "(2::rat) powi (bitlen p - 1) \<le> of_int p \<and> (of_int p :: rat) < 2 powi (bitlen p)"
proof -
  have b1: "1 \<le> bitlen p"
    using assms bitlen_eq_zero_iff [of p] bitlen_nonneg [of p] by linarith
  from bitlen_bounds [OF assms]
  have i: "(2::int) ^ nat (bitlen p - 1) \<le> p" "p < 2 ^ nat (bitlen p)" by simp_all
  have "(of_int ((2::int) ^ nat (bitlen p - 1)) :: rat) \<le> of_int p"
    using i(1) by (simp only: of_int_le_iff)
  then have 1: "(2::rat) ^ nat (bitlen p - 1) \<le> of_int p" by simp
  have "(of_int p :: rat) < of_int ((2::int) ^ nat (bitlen p))"
    using i(2) by (simp only: of_int_less_iff)
  then have 2: "(of_int p :: rat) < 2 ^ nat (bitlen p)" by simp
  from 1 2 b1 show ?thesis by (simp add: power_int_nonneg_exp)
qed

lemma floor_log2_bounds:
  assumes "0 < x"
  shows "2 powi (floor_log2 x) \<le> x \<and> x < 2 powi (floor_log2 x + 1)"
proof -
  obtain p q where pq: "quotient_of x = (p, q)" by (cases "quotient_of x")
  then have q: "0 < q" by (rule quotient_of_denom_pos)
  from pq have x: "x = of_int p / of_int q" by (rule quotient_of_div)
  with assms q have p: "0 < p" by (simp add: zero_less_divide_iff)
  define bp where "bp = bitlen p"
  define bq where "bq = bitlen q"
  have pr: "(2::rat) powi (bp - 1) \<le> of_int p" "(of_int p :: rat) < 2 powi bp"
    using bitlen_rat_bounds [OF p] by (simp_all add: bp_def)
  have qr: "(2::rat) powi (bq - 1) \<le> of_int q" "(of_int q :: rat) < 2 powi bq"
    using bitlen_rat_bounds [OF q] by (simp_all add: bq_def)
  have qpos: "(0::rat) < of_int q" using q by simp
  have up: "x < 2 powi (bp - bq + 1)"
  proof -
    have "of_int p * (1::rat) < 2 powi bp * 1" using pr by simp
    also have "2 powi bp * (1::rat) \<le> 2 powi bp * (of_int q / 2 powi (bq - 1))"
      using qr(1) by (intro mult_left_mono) (simp_all add: pos_le_divide_eq)
    also have "\<dots> = 2 powi (bp - bq + 1) * of_int q"
      by (simp add: power_int_diff power_int_add)
    finally show ?thesis using qpos by (simp add: x pos_divide_less_eq)
  qed
  have lo: "2 powi (bp - bq - 1) < x"
  proof -
    have "2 powi (bp - bq - 1) * of_int q < 2 powi (bp - bq - 1) * (2 powi bq :: rat)"
      using qr(2) by (intro mult_strict_left_mono) simp_all
    also have "\<dots> = 2 powi (bp - 1)" by (simp add: power_int_diff)
    also have "\<dots> \<le> of_int p" by (rule pr(1))
    finally show ?thesis using qpos by (simp add: x pos_less_divide_eq)
  qed
  show ?thesis
  proof (cases "2 powi (bp - bq) \<le> x")
    case True
    then have "floor_log2 x = bp - bq" by (simp add: floor_log2_def pq bp_def bq_def)
    with True up show ?thesis by simp
  next
    case False
    then have "floor_log2 x = bp - bq - 1" by (simp add: floor_log2_def pq bp_def bq_def)
    with False lo show ?thesis by simp
  qed
qed


lemma floor_log2_unique:
  assumes "2 powi e \<le> x" and "x < 2 powi (e + 1)"
  shows "floor_log2 x = e"
proof -
  have x: "0 < x" using assms(1) zero_less_power_int [of "2::rat" e] by linarith
  note b = floor_log2_bounds [OF x]
  have "2 powi e < (2::rat) powi (floor_log2 x + 1)" using assms(1) b by linarith
  then have 1: "e < floor_log2 x + 1" by (simp add: pow2_less_iff)
  have "2 powi (floor_log2 x) < (2::rat) powi (e + 1)" using assms(2) b by linarith
  then have 2: "floor_log2 x < e + 1" by (simp add: pow2_less_iff)
  from 1 2 show ?thesis by simp
qed

lemma round_half_even_error: "\<bar>of_int (round_half_even q) - q\<bar> \<le> 1 / 2"
proof -
  have "of_int \<lfloor>q\<rfloor> \<le> q" "q < of_int \<lfloor>q\<rfloor> + 1" by linarith+
  then show ?thesis by (auto simp: round_half_even_def Let_def)
qed

lemma round_half_even_of_int [simp]: "round_half_even (of_int n) = n"
  by (simp add: round_half_even_def)

lemma round_half_even_le: "q \<le> of_int n \<Longrightarrow> round_half_even q \<le> n"
proof -
  assume a: "q \<le> of_int n"
  have f: "\<lfloor>q\<rfloor> \<le> n" using a by (simp add: floor_le_iff) 
  show ?thesis
  proof (cases "\<lfloor>q\<rfloor> = n")
    case True
    then have "q = of_int n" using a by (metis of_int_floor_le order_antisym)
    then show ?thesis by simp
  next
    case False
    with f have "\<lfloor>q\<rfloor> + 1 \<le> n" by simp
    then show ?thesis by (auto simp: round_half_even_def Let_def)
  qed
qed

lemma round_half_even_ge: "of_int n \<le> q \<Longrightarrow> n \<le> round_half_even q"
proof -
  assume a: "of_int n \<le> q"
  then have "n \<le> \<lfloor>q\<rfloor>" by (simp add: le_floor_iff)
  then show ?thesis by (auto simp: round_half_even_def Let_def)
qed


lemma floor_log2_mono:
  assumes "0 < x" and "x \<le> y"
  shows "floor_log2 x \<le> floor_log2 y"
proof -
  from assms have y: "0 < y" by simp
  have "2 powi (floor_log2 x) < (2::rat) powi (floor_log2 y + 1)"
    using floor_log2_bounds [OF assms(1)] floor_log2_bounds [OF y] assms(2) by linarith
  then show ?thesis by (simp add: pow2_less_iff)
qed

lemma ulp_pos [simp]: "0 < ulp x"
  by (simp add: ulp_def)

lemma ulp_nonneg [simp]: "0 \<le> ulp x"
  by (simp add: ulp_def)

lemma ulp_neq_0 [simp]: "ulp x \<noteq> 0"
  by (simp add: ulp_def)

lemma ulp_eq:
  assumes "2 powi e \<le> \<bar>x\<bar>" and "\<bar>x\<bar> < 2 powi (e + 1)" and "- 1022 \<le> e"
  shows "ulp x = 2 powi (e - 52)"
  using floor_log2_unique [OF assms(1,2)] assms(3) by (simp add: ulp_def max_def)

lemma ulp_subnormal:
  assumes "x \<noteq> 0" and "\<bar>x\<bar> < 2 powi (- 1022)"
  shows "ulp x = 2 powi (- 1074)"
proof -
  from assms(1) have p: "0 < \<bar>x\<bar>" by simp
  have "2 powi (floor_log2 \<bar>x\<bar>) < (2::rat) powi (- 1022)"
    using floor_log2_bounds [OF p] assms(2) by linarith
  then have "floor_log2 \<bar>x\<bar> < - 1022" by (simp only: pow2_less_iff)
  then show ?thesis by (simp add: ulp_def max_def)
qed

lemma fl_eq:
  assumes "2 powi e \<le> \<bar>x\<bar>" and "\<bar>x\<bar> < 2 powi (e + 1)" and "- 1022 \<le> e"
  shows "fl x = of_int (round_half_even (x / 2 powi (e - 52))) * 2 powi (e - 52)"
proof -
  have "(0::rat) < 2 powi e" by simp
  with assms(1) have "0 < \<bar>x\<bar>" by linarith
  then have "x \<noteq> 0" by simp
  then show ?thesis by (simp add: fl_def ulp_eq [OF assms])
qed

lemma fl_subnormal:
  assumes "\<bar>x\<bar> < 2 powi (- 1022)"
  shows "fl x = of_int (round_half_even (x / 2 powi (- 1074))) * 2 powi (- 1074)"
proof (cases "x = 0")
  case True
  then show ?thesis by (simp add: fl_def round_half_even_def)
next
  case False
  then show ?thesis by (simp only: fl_def if_False ulp_subnormal [OF False assms])
qed

lemma fl_error: "\<bar>fl x - x\<bar> \<le> ulp x / 2"
proof (cases "x = 0")
  case True
  then show ?thesis using ulp_pos [of 0] by (simp add: fl_def less_imp_le)
next
  case False
  have "fl x - x = (of_int (round_half_even (x / ulp x)) - x / ulp x) * ulp x"
    using False ulp_pos [of x] by (simp add: fl_def left_diff_distrib)
  then have "\<bar>fl x - x\<bar> = \<bar>of_int (round_half_even (x / ulp x)) - x / ulp x\<bar> * ulp x"
    by (simp add: abs_mult abs_of_pos)
  also have "\<dots> \<le> (1 / 2) * ulp x"
    by (intro mult_right_mono round_half_even_error) simp
  finally show ?thesis by simp
qed

lemma ulp_le_normal:
  assumes "2 powi (- 1022) \<le> \<bar>x\<bar>"
  shows "ulp x \<le> \<bar>x\<bar> / 2 ^ 52"
proof -
  have p: "0 < \<bar>x\<bar>" using assms zero_less_power_int [of "2::rat" "- 1022"] by linarith
  note b = floor_log2_bounds [OF p]
  have "2 powi (- 1022) < (2::rat) powi (floor_log2 \<bar>x\<bar> + 1)" using assms b by linarith
  then have "- 1022 < floor_log2 \<bar>x\<bar> + 1" by (simp only: pow2_less_iff)
  then have "ulp x = 2 powi (floor_log2 \<bar>x\<bar> - 52)" by (simp add: ulp_def max_def)
  also have "\<dots> = 2 powi (floor_log2 \<bar>x\<bar>) / 2 ^ 52" by (simp add: power_int_diff)
  also have "\<dots> \<le> \<bar>x\<bar> / 2 ^ 52" using b by (simp add: divide_right_mono)
  finally show ?thesis .
qed

lemma fl_rel_error:
  assumes "2 powi (- 1022) \<le> \<bar>x\<bar>"
  shows "\<bar>fl x - x\<bar> \<le> \<bar>x\<bar> / 2 ^ 53"
proof -
  have "\<bar>fl x - x\<bar> \<le> ulp x / 2" by (rule fl_error)
  also have "\<dots> \<le> (\<bar>x\<bar> / 2 ^ 52) / 2" using ulp_le_normal [OF assms] by simp
  finally show ?thesis by simp
qed

lemma round_half_even_near:
  assumes "\<bar>q - of_int n\<bar> < 1 / 2"
  shows "round_half_even q = n"
proof -
  from assms have b: "of_int n - 1 / 2 < q" "q < of_int n + 1 / 2" by linarith+
  show ?thesis
  proof (cases "of_int n \<le> q")
    case True
    have "\<lfloor>q\<rfloor> = n"
    proof (rule floor_unique)
      show "of_int n \<le> q" by (rule True)
      show "q < of_int n + 1" using b by simp
    qed
    with b show ?thesis by (simp add: round_half_even_def Let_def)
  next
    case False
    have "\<lfloor>q\<rfloor> = n - 1"
    proof (rule floor_unique)
      show "of_int (n - 1) \<le> q" using b by simp
      show "q < of_int (n - 1) + 1" using False by simp
    qed
    with b show ?thesis by (simp add: round_half_even_def Let_def)
  qed
qed

lemma fl_near:
  assumes "2 powi e \<le> \<bar>x\<bar>" and "\<bar>x\<bar> < 2 powi (e + 1)" and "- 1022 \<le> e"
    and "\<bar>x / 2 powi (e - 52) - of_int n\<bar> < 1 / 2"
  shows "fl x = of_int n * 2 powi (e - 52)"
  by (simp only: fl_eq [OF assms(1-3)] round_half_even_near [OF assms(4)])

lemma fl_nonneg: "0 \<le> x \<Longrightarrow> 0 \<le> fl x"
  using round_half_even_ge [of 0 "x / ulp x"] by (simp add: fl_def)

lemma fl_fixed_grid:
  assumes "fl x = x"
  shows "\<exists>m. x = of_int m * ulp x"
proof (cases "x = 0")
  case True
  then have "x = of_int 0 * ulp x" by simp
  then show ?thesis ..
next
  case False
  with assms have "x = of_int (round_half_even (x / ulp x)) * ulp x" by (simp add: fl_def)
  then show ?thesis ..
qed

lemma fl_grid:
  assumes "x = of_int m * ulp x"
  shows "fl x = x"
proof -
  have "x / ulp x = of_int m" using assms by (simp add: field_simps)
  then have "round_half_even (x / ulp x) = m" by simp
  with assms show ?thesis by (simp add: fl_def)
qed

lemma ulp_mono:
  assumes "0 < x" and "x \<le> y"
  shows "\<exists>k::nat. ulp y = ulp x * 2 ^ k"
proof -
  define ex where "ex = max (floor_log2 \<bar>x\<bar>) (- 1022)"
  define ey where "ey = max (floor_log2 \<bar>y\<bar>) (- 1022)"
  have "floor_log2 \<bar>x\<bar> \<le> floor_log2 \<bar>y\<bar>"
    using assms by (intro floor_log2_mono) simp_all
  then have le: "ex \<le> ey" by (simp add: ex_def ey_def max_def)
  have "ulp y = 2 powi (ex - 52 + (ey - ex))" by (simp add: ulp_def ey_def)
  also have "\<dots> = 2 powi (ex - 52) * 2 powi (ey - ex)" by (rule power_int_add) simp
  also have "(2::rat) powi (ey - ex) = 2 ^ nat (ey - ex)" using le by (simp add: power_int_nonneg_exp)
  finally have "ulp y = ulp x * 2 ^ nat (ey - ex)" by (simp add: ulp_def ex_def)
  then show ?thesis ..
qed

lemma fl_le_double:
  assumes "0 < x" and "x \<le> d" and "fl d = d"
  shows "fl x \<le> d"
proof -
  from fl_fixed_grid [OF assms(3)] obtain m where m: "d = of_int m * ulp d" ..
  from ulp_mono [OF assms(1,2)] obtain k :: nat where k: "ulp d = ulp x * 2 ^ k" ..
  have dm: "d = of_int (m * 2 ^ k) * ulp x" using m k by simp
  have "x / ulp x \<le> d / ulp x" using assms(2) by (simp add: divide_right_mono)
  also have "d / ulp x = of_int (m * 2 ^ k)" using dm by (simp add: field_simps)
  finally have "round_half_even (x / ulp x) \<le> m * 2 ^ k" by (rule round_half_even_le)
  then have "(of_int (round_half_even (x / ulp x)) :: rat) \<le> of_int (m * 2 ^ k)"
    by (simp only: of_int_le_iff)
  then have "of_int (round_half_even (x / ulp x)) * ulp x \<le> of_int (m * 2 ^ k) * ulp x"
    by (rule mult_right_mono) simp
  with dm assms(1) show ?thesis by (simp add: fl_def)
qed

lemma fl_ge_pow2:
  assumes "- 1022 \<le> e" and "2 powi e \<le> x"
  shows "2 powi e \<le> fl x"
proof -
  have p: "(0::rat) < 2 powi e" by simp
  with assms(2) have x: "0 < x" by linarith
  define f where "f = floor_log2 \<bar>x\<bar>"
  have b: "2 powi f \<le> x" "x < 2 powi (f + 1)" using floor_log2_bounds [of "\<bar>x\<bar>"] x by (simp_all add: f_def)
  have "2 powi e < (2::rat) powi (f + 1)" using assms(2) b by linarith
  then have ef: "e \<le> f" by (simp add: pow2_less_iff)
  with assms(1) have "max f (- 1022) = f" by simp
  then have u: "ulp x = 2 powi (f - 52)" by (simp only: ulp_def f_def [symmetric])
  have "of_int (2 ^ 52) = (2::rat) powi f / 2 powi (f - 52)" by (simp add: power_int_diff)
  also have "\<dots> \<le> x / ulp x" using b(1) by (simp add: u divide_right_mono)
  finally have "2 ^ 52 \<le> round_half_even (x / ulp x)" by (rule round_half_even_ge)
  then have "(of_int (2 ^ 52) :: rat) \<le> of_int (round_half_even (x / ulp x))"
    by (simp only: of_int_le_iff)
  then have A: "of_int (2 ^ 52) * ulp x \<le> of_int (round_half_even (x / ulp x)) * ulp x"
    by (rule mult_right_mono) simp
  have B: "of_int (2 ^ 52) * ulp x = (2::rat) powi f" by (simp add: u power_int_diff)
  have C: "fl x = of_int (round_half_even (x / ulp x)) * ulp x" using x by (simp add: fl_def)
  from A have "2 powi f \<le> fl x" unfolding B C .
  moreover have "(2::rat) powi e \<le> 2 powi f" using ef by (simp add: pow2_le_iff)
  ultimately show ?thesis by linarith
qed

lemma fl_ge_double:
  assumes "0 < d" and "d \<le> x" and "fl d = d"
  shows "d \<le> fl x"
proof -
  from assms have x: "0 < x" by simp
  from fl_fixed_grid [OF assms(3)] obtain m where m: "d = of_int m * ulp d" ..
  show ?thesis
  proof (cases "ulp d = ulp x")
    case True
    have "of_int m = d / ulp x" using m True by (simp add: field_simps)
    also have "\<dots> \<le> x / ulp x" using assms(2) by (simp add: divide_right_mono)
    finally have "m \<le> round_half_even (x / ulp x)" by (rule round_half_even_ge)
    then have "(of_int m :: rat) \<le> of_int (round_half_even (x / ulp x))"
      by (simp only: of_int_le_iff)
    then have "of_int m * ulp x \<le> of_int (round_half_even (x / ulp x)) * ulp x"
      by (rule mult_right_mono) simp
    with m True x show ?thesis by (simp add: fl_def)
  next
    case False
    define fd where "fd = floor_log2 \<bar>d\<bar>"
    define fx where "fx = floor_log2 \<bar>x\<bar>"
    have le: "fd \<le> fx" using assms(1,2) unfolding fd_def fx_def by (intro floor_log2_mono) simp_all
    have ne: "max fd (- 1022) \<noteq> max fx (- 1022)" using False by (auto simp: ulp_def fd_def fx_def)
    with le have lt: "fd < fx" and n: "- 1022 < fx" by (auto simp: max_def split: if_splits)
    have "d < 2 powi (fd + 1)" using floor_log2_bounds [of "\<bar>d\<bar>"] assms(1) by (simp add: fd_def)
    also have "\<dots> \<le> 2 powi fx" using lt by (simp add: pow2_le_iff)
    finally have d: "d < 2 powi fx" .
    have "2 powi fx \<le> x" using floor_log2_bounds [of "\<bar>x\<bar>"] x by (simp add: fx_def)
    with n have "2 powi fx \<le> fl x" by (intro fl_ge_pow2) simp_all
    with d show ?thesis by linarith
  qed
qed



lemma fl_of_int:
  assumes "0 \<le> k" and "k < 2 ^ 53"
  shows "fl (of_int k) = of_int k"
proof (cases "k = 0")
  case True
  then show ?thesis by (simp add: fl_def)
next
  case False
  with assms have k: "1 \<le> k" by simp
  define x :: rat where "x = of_int k"
  define f where "f = floor_log2 \<bar>x\<bar>"
  have x1: "1 \<le> x" using k by (simp add: x_def)
  have "(of_int k :: rat) < of_int (2 ^ 53)" using assms(2) by (simp only: of_int_less_iff)
  then have x2: "x < 2 powi 53" by (simp add: x_def)
  have b: "2 powi f \<le> x" "x < 2 powi (f + 1)"
    using floor_log2_bounds [of "\<bar>x\<bar>"] x1 by (simp_all add: f_def)
  have "2 powi f < (2::rat) powi 53" using b(1) x2 by linarith
  then have f1: "f < 53" by (simp only: pow2_less_iff)
  have "2 powi 0 < (2::rat) powi (f + 1)" using b(2) x1 by simp
  then have f0: "0 < f + 1" by (simp only: pow2_less_iff)
  from f0 have "max f (- 1022) = f" by simp
  then have u: "ulp x = 2 powi (f - 52)" by (simp only: ulp_def f_def [symmetric])
  have "(2::rat) powi (f - 52) * 2 ^ nat (52 - f) = 2 powi (f - 52) * 2 powi (52 - f)"
    using f1 by (simp add: power_int_nonneg_exp)
  also have "\<dots> = 2 powi (f - 52 + (52 - f))" by (rule power_int_add [symmetric]) simp
  finally have one: "(2::rat) powi (f - 52) * 2 ^ nat (52 - f) = 1" by simp
  have "of_int (k * 2 ^ nat (52 - f)) * ulp x = x * (2 powi (f - 52) * 2 ^ nat (52 - f))"
    unfolding u by (simp add: x_def)
  then have "x = of_int (k * 2 ^ nat (52 - f)) * ulp x" by (simp only: one mult_1_right)
  then have "fl x = x" by (rule fl_grid)
  then show ?thesis by (simp add: x_def)
qed

lemma round_number_of_nat:
  assumes "n < 2 ^ 53"
  shows "round_number (of_nat n) = Fin (of_nat n)"
proof -
  have "int n < 2 ^ 53" using assms by (metis of_nat_less_numeral_power_cancel_iff)
  then have "fl (of_int (int n)) = of_int (int n)" by (intro fl_of_int) simp_all
  then have f: "fl (of_nat n) = of_nat n" by simp
  have "(of_nat n :: rat) < of_nat (2 ^ 53)" using assms by (simp only: of_nat_less_iff)
  also have "\<dots> < 2 ^ 1024" by simp
  finally have "(of_nat n :: rat) < 2 ^ 1024" .
  moreover have "- (2 ^ 1024) < (of_nat n :: rat)"
    by (rule less_le_trans [of _ 0]) simp_all
  ultimately show ?thesis by (simp add: round_number_def f Let_def not_le)
qed





section \<open>Properties of the cost calculator\<close>

lemma fl_rel:
  assumes "2 powi (- 1022) \<le> x"
  shows "x * (1 - 1 / 2 ^ 53) \<le> fl x \<and> fl x \<le> x * (1 + 1 / 2 ^ 53)"
proof -
  have "(0::rat) < 2 powi (- 1022)" by (rule zero_less_power_int) simp
  with assms have p: "0 < x" by linarith
  then have "2 powi (- 1022) \<le> \<bar>x\<bar>" using assms by simp
  from fl_rel_error [OF this] p have "\<bar>fl x - x\<bar> \<le> x / 2 ^ 53" by simp
  then have "fl x - x \<le> x / 2 ^ 53" and "x - fl x \<le> x / 2 ^ 53" by linarith+
  then show ?thesis by (simp add: algebra_simps)
qed

lemma round_number_fl:
  assumes "0 \<le> fl x" and "fl x < 2 ^ 1024"
  shows "round_number x = Fin (fl x)"
proof -
  have "- (2 ^ 1024) < (0::rat)" by simp
  with assms(1) have "- (2 ^ 1024) < fl x" by linarith
  with assms(2) show ?thesis by (simp add: round_number_def Let_def not_le)
qed

lemma percent_chain:
  fixes h a c e A B S Q P :: rat
  assumes e: "0 < e" "e < 1" and h: "0 < h" and a: "0 < a" and c: "0 < c"
    and d: "c * (1 + e) \<le> a * (1 - e)"
    and A: "h * a * (1 - e) \<le> A" "A \<le> h * a * (1 + e)"
    and B: "h * c * (1 - e) \<le> B" "B \<le> h * c * (1 + e)"
    and S: "(A - B) * (1 - e) \<le> S" "S \<le> (A - B) * (1 + e)"
    and Q: "S / A * (1 - e) \<le> Q" "Q \<le> S / A * (1 + e)"
    and P: "Q * 100 * (1 - e) \<le> P" "P \<le> Q * 100 * (1 + e)"
  shows "100 * (1 - c * (1 + e) / (a * (1 - e))) * (1 - e) ^ 3 \<le> P"
    and "P \<le> 100 * (1 - c * (1 - e) / (a * (1 + e))) * (1 + e) ^ 3"
proof -
  have e1: "0 < 1 - e" "0 < 1 + e" using e by simp_all
  have ha: "0 < h * a" using h a by simp
  have hc: "0 < h * c" using h c by simp
  have lowA: "0 < h * a * (1 - e)" using ha e1 by simp
  then have Apos: "0 < A" using A(1) by linarith
  have Bpos: "0 \<le> B"
  proof -
    have "0 \<le> h * c * (1 - e)" using hc e1 by simp
    with B(1) show ?thesis by linarith
  qed
  define t where "t = B / A"
  define thi where "thi = c * (1 + e) / (a * (1 - e))"
  define tlo where "tlo = c * (1 - e) / (a * (1 + e))"
  have t_hi: "t \<le> thi"
  proof -
    have "B / A \<le> (h * c * (1 + e)) / (h * a * (1 - e))"
      using B(2) A(1) lowA hc e1 by (intro frac_le) simp_all
    also have "\<dots> = thi" using h by (simp add: thi_def)
    finally show ?thesis by (simp add: t_def)
  qed
  have t_lo: "tlo \<le> t"
  proof -
    have "(h * c * (1 - e)) / (h * a * (1 + e)) \<le> B / A"
      using B(1) A(2) Apos Bpos hc e1 by (intro frac_le) simp_all
    moreover have "(h * c * (1 - e)) / (h * a * (1 + e)) = tlo" using h by (simp add: tlo_def)
    ultimately show ?thesis by (simp add: t_def)
  qed
  have thi1: "thi \<le> 1"
  proof -
    have "0 < a * (1 - e)" using a e1 by simp
    then show ?thesis using d by (simp add: thi_def pos_divide_le_eq)
  qed
  have dpos: "0 \<le> 1 - t" using t_hi thi1 by linarith
  have AB: "(A - B) / A = 1 - t" using Apos by (simp add: t_def diff_divide_distrib)
  have SA_lo: "(1 - t) * (1 - e) \<le> S / A"
  proof -
    have "(A - B) * (1 - e) / A \<le> S / A" using S(1) Apos by (simp add: divide_right_mono)
    moreover have "(A - B) * (1 - e) / A = (A - B) / A * (1 - e)" by simp
    ultimately show ?thesis by (simp only: AB)
  qed
  have SA_hi: "S / A \<le> (1 - t) * (1 + e)"
  proof -
    have "S / A \<le> (A - B) * (1 + e) / A" using S(2) Apos by (simp add: divide_right_mono)
    moreover have "(A - B) * (1 + e) / A = (A - B) / A * (1 + e)" by simp
    ultimately show ?thesis by (simp only: AB)
  qed
  have Q_lo: "(1 - t) * (1 - e) ^ 2 \<le> Q"
  proof -
    have "(1 - t) * (1 - e) * (1 - e) \<le> S / A * (1 - e)"
      using SA_lo e1 by (intro mult_right_mono) simp_all
    with Q(1) show ?thesis by (simp add: power2_eq_square mult.assoc)
  qed
  have Q_hi: "Q \<le> (1 - t) * (1 + e) ^ 2"
  proof -
    have "S / A * (1 + e) \<le> (1 - t) * (1 + e) * (1 + e)"
      using SA_hi e1 by (intro mult_right_mono) simp_all
    with Q(2) show ?thesis by (simp add: power2_eq_square mult.assoc)
  qed
  have P_lo: "100 * (1 - t) * (1 - e) ^ 3 \<le> P"
  proof -
    have "(1 - t) * (1 - e) ^ 2 * (100 * (1 - e)) \<le> Q * (100 * (1 - e))"
      using Q_lo e1 by (intro mult_right_mono) simp_all
    also have "\<dots> = Q * 100 * (1 - e)" by (simp only: mult.assoc)
    also have "\<dots> \<le> P" by (rule P(1))
    finally have "(1 - t) * (1 - e) ^ 2 * (100 * (1 - e)) \<le> P" .
    moreover have "(1 - t) * (1 - e) ^ 2 * (100 * (1 - e)) = 100 * (1 - t) * (1 - e) ^ 3"
      by algebra
    ultimately show ?thesis by (simp only:)
  qed
  have P_hi: "P \<le> 100 * (1 - t) * (1 + e) ^ 3"
  proof -
    have "P \<le> Q * 100 * (1 + e)" by (rule P(2))
    also have "\<dots> = Q * (100 * (1 + e))" by (simp only: mult.assoc)
    also have "\<dots> \<le> (1 - t) * (1 + e) ^ 2 * (100 * (1 + e))"
      using Q_hi e1 by (intro mult_right_mono) simp_all
    finally have "P \<le> (1 - t) * (1 + e) ^ 2 * (100 * (1 + e))" .
    moreover have "(1 - t) * (1 + e) ^ 2 * (100 * (1 + e)) = 100 * (1 - t) * (1 + e) ^ 3"
      by algebra
    ultimately show ?thesis by (simp only:)
  qed
  have "100 * (1 - thi) * (1 - e) ^ 3 \<le> 100 * (1 - t) * (1 - e) ^ 3"
    using t_hi e1 by (intro mult_right_mono mult_left_mono) simp_all
  with P_lo show "100 * (1 - c * (1 + e) / (a * (1 - e))) * (1 - e) ^ 3 \<le> P"
    by (simp add: thi_def)
  have "100 * (1 - t) * (1 + e) ^ 3 \<le> 100 * (1 - tlo) * (1 + e) ^ 3"
    using t_lo e1 by (intro mult_right_mono mult_left_mono) simp_all
  with P_hi show "P \<le> 100 * (1 - c * (1 - e) / (a * (1 + e))) * (1 + e) ^ 3"
    by (simp add: tlo_def)
qed


lemma calc_chain:
  fixes h a c :: rat
  assumes h: "2 powi (- 1021) \<le> h" "h \<le> 2 ^ 1017"
    and a: "2 \<le> a" "a \<le> 16" and c: "1 / 2 \<le> c" "2 * c \<le> a"
  defines "A \<equiv> fl (h * a)" and "B \<equiv> fl (h * c)"
  defines "S \<equiv> fl (A - B)"
  defines "Q \<equiv> fl (S / A)"
  defines "P \<equiv> fl (Q * 100)"
  shows "js_mul (Fin h) (Fin a) = Fin A \<and> js_mul (Fin h) (Fin c) = Fin B \<and>
         js_sub (Fin A) (Fin B) = Fin S \<and> js_div (Fin S) (Fin A) = Fin Q \<and>
         js_mul (Fin Q) (Fin 100) = Fin P"
    and "h * a * (1 - 1 / 2 ^ 53) \<le> A \<and> A \<le> h * a * (1 + 1 / 2 ^ 53)"
    and "h * c * (1 - 1 / 2 ^ 53) \<le> B \<and> B \<le> h * c * (1 + 1 / 2 ^ 53)"
    and "(A - B) * (1 - 1 / 2 ^ 53) \<le> S \<and> S \<le> (A - B) * (1 + 1 / 2 ^ 53)"
    and "S / A * (1 - 1 / 2 ^ 53) \<le> Q \<and> Q \<le> S / A * (1 + 1 / 2 ^ 53)"
    and "Q * 100 * (1 - 1 / 2 ^ 53) \<le> P \<and> P \<le> Q * 100 * (1 + 1 / 2 ^ 53)"
    and "0 < B \<and> B < A \<and> 0 < P \<and> P < 1000"
proof -
  have "(2::rat) powi (- 1022 + 1) = 2 powi (- 1022) * 2" by (rule power_int_add_1) simp
  then have m2: "(2::rat) powi (- 1021) = 2 * 2 powi (- 1022)" by simp
  have mp: "(0::rat) < 2 powi (- 1022)" by (rule zero_less_power_int) simp
  define u :: rat where "u = 2 powi (- 1022)"
  have u: "0 < u" "2 powi (- 1022) \<le> u" "2 * u \<le> h" using mp m2 h(1) by (simp_all add: u_def)
  have hpos: "0 < h" using u by linarith
  have big: "(2::rat) ^ 1017 * 64 < 2 ^ 1024" by simp
  have big4: "(4::rat) < 2 ^ 1024" "(999::rat) < 2 ^ 1024" by simp_all
  define x1 where "x1 = h * a"
  define x2 where "x2 = h * c"
  have x1_lo: "2 * h \<le> x1" unfolding x1_def using a(1) hpos by (simp add: mult.commute [of h])
  have x1_hi: "x1 \<le> 2 ^ 1017 * 16" unfolding x1_def using h(2) a(1,2) hpos by (intro mult_mono) simp_all
  have x2_lo: "h / 2 \<le> x2" unfolding x2_def using c(1) hpos mult_left_mono [of "1 / 2" c h] by simp
  have x2_hi: "2 * x2 \<le> x1"
  proof -
    have "h * (2 * c) \<le> h * a" using c(2) hpos by (intro mult_left_mono) simp_all
    then show ?thesis by (simp add: x1_def x2_def)
  qed
  have "2 powi (- 1022) \<le> x1" using u x1_lo by linarith
  from fl_rel [OF this] have Ab: "x1 * (1 - 1 / 2 ^ 53) \<le> A \<and> A \<le> x1 * (1 + 1 / 2 ^ 53)"
    by (simp only: A_def x1_def)
  have "2 powi (- 1022) \<le> x2" using u x2_lo by linarith
  from fl_rel [OF this] have Bb: "x2 * (1 - 1 / 2 ^ 53) \<le> B \<and> B \<le> x2 * (1 + 1 / 2 ^ 53)"
    by (simp only: B_def x2_def)
  have A1: "x1 / 2 \<le> A" "A \<le> 2 * x1" and A2: "x1 - x1 / 2 ^ 53 \<le> A" using Ab hpos x1_lo
    by (simp_all add: algebra_simps)
  have B1: "x2 / 2 \<le> B" "B \<le> 2 * x2" and B2: "B \<le> x2 + x2 / 2 ^ 53" using Bb hpos x2_lo
    by (simp_all add: algebra_simps)
  have Apos: "0 < A" using A1 x1_lo hpos by linarith
  have Bpos: "0 < B" using B1 x2_lo hpos by linarith
  have D_lo: "x1 / 4 \<le> A - B" using A2 B2 x2_hi x1_lo hpos by simp
  have D_hi: "A - B \<le> A" using Bpos by simp
  have "2 powi (- 1022) \<le> A - B" using D_lo x1_lo u by linarith
  from fl_rel [OF this] have Sb: "(A - B) * (1 - 1 / 2 ^ 53) \<le> S \<and> S \<le> (A - B) * (1 + 1 / 2 ^ 53)"
    by (simp only: S_def)
  have S1: "x1 / 8 \<le> S" "S \<le> 2 * A" using Sb D_lo D_hi x1_lo hpos Apos by (simp_all add: algebra_simps)
  have Spos: "0 < S" using S1 x1_lo hpos by linarith
  have R_lo: "1 / 16 \<le> S / A"
  proof -
    have ne: "x1 \<noteq> 0" using x1_lo hpos by auto
    have le: "(x1 / 8) / (2 * x1) \<le> S / A" using S1(1) A1(2) Apos Spos by (intro frac_le) simp_all
    have eq: "(x1 / 8) / (2 * x1) = 1 / 16" using ne by simp
    show ?thesis using le unfolding eq .
  qed
  have R_hi: "S / A \<le> 2" using S1(2) Apos by (simp add: pos_divide_le_eq)
  have p4: "(2::rat) powi (- 1022) \<le> 2 powi (- 4)" by (simp only: pow2_le_iff)
  have e4: "(2::rat) powi (- 4) = 1 / 16" by simp
  have "2 powi (- 1022) \<le> S / A" using R_lo p4 unfolding e4 by (rule order_trans [rotated])
  from fl_rel [OF this] have Qb: "S / A * (1 - 1 / 2 ^ 53) \<le> Q \<and> Q \<le> S / A * (1 + 1 / 2 ^ 53)"
    by (simp only: Q_def)
  have Q1: "1 / 32 \<le> Q" "Q \<le> 4" using Qb R_lo R_hi by (simp_all add: algebra_simps)
  have p0: "(2::rat) powi (- 1022) \<le> 2 powi 0" by (simp only: pow2_le_iff)
  have e0: "(2::rat) powi 0 = 1" by simp
  have "1 \<le> Q * 100" using Q1 by simp
  with p0 have "2 powi (- 1022) \<le> Q * 100" unfolding e0 by (rule order_trans)
  from fl_rel [OF this] have Pb: "Q * 100 * (1 - 1 / 2 ^ 53) \<le> P \<and> P \<le> Q * 100 * (1 + 1 / 2 ^ 53)"
    by (simp only: P_def)
  have P1: "1 \<le> P" "P \<le> 999" using Pb Q1 by (simp_all add: algebra_simps)
  have rA: "round_number (h * a) = Fin A" unfolding A_def [symmetric]
    using Apos A1(2) x1_hi big unfolding A_def by (intro round_number_fl) linarith+
  have rB: "round_number (h * c) = Fin B" unfolding B_def [symmetric]
    using Bpos B1(2) x2_hi x1_hi big unfolding B_def by (intro round_number_fl) linarith+
  have rS: "round_number (A - B) = Fin S"
    using Spos S1(2) A1(2) x1_hi big unfolding S_def by (intro round_number_fl) linarith+
  have rQ: "round_number (S / A) = Fin Q"
    using Q1 big4 unfolding Q_def by (intro round_number_fl) linarith+
  have rP: "round_number (Q * 100) = Fin P"
    using P1 big4 unfolding P_def by (intro round_number_fl) linarith+
  show "js_mul (Fin h) (Fin a) = Fin A \<and> js_mul (Fin h) (Fin c) = Fin B \<and>
         js_sub (Fin A) (Fin B) = Fin S \<and> js_div (Fin S) (Fin A) = Fin Q \<and>
         js_mul (Fin Q) (Fin 100) = Fin P"
    using rA rB rS rQ rP Apos by simp
  show "h * a * (1 - 1 / 2 ^ 53) \<le> A \<and> A \<le> h * a * (1 + 1 / 2 ^ 53)"
    using Ab by (simp only: x1_def)
  show "h * c * (1 - 1 / 2 ^ 53) \<le> B \<and> B \<le> h * c * (1 + 1 / 2 ^ 53)"
    using Bb by (simp only: x2_def)
  show "(A - B) * (1 - 1 / 2 ^ 53) \<le> S \<and> S \<le> (A - B) * (1 + 1 / 2 ^ 53)" by (rule Sb)
  show "S / A * (1 - 1 / 2 ^ 53) \<le> Q \<and> Q \<le> S / A * (1 + 1 / 2 ^ 53)" by (rule Qb)
  show "Q * 100 * (1 - 1 / 2 ^ 53) \<le> P \<and> P \<le> Q * 100 * (1 + 1 / 2 ^ 53)" by (rule Pb)
  show "0 < B \<and> B < A \<and> 0 < P \<and> P < 1000" using Bpos D_lo x1_lo hpos P1 by simp
qed

lemma fl_literals:
  "fl (306 / 100) = 6890507429876859 / 2 ^ 51"
  "fl (99 / 100) = 8917127262193582 / 2 ^ 53"
  "fl (512 / 100) = 5764607523034235 / 2 ^ 50"
  "fl (199 / 100) = 8962163258467287 / 2 ^ 52"
  "fl (1224 / 100) = 6890507429876859 / 2 ^ 49"
  "fl (399 / 100) = 8984681256604140 / 2 ^ 51"
  using fl_near [of 1 "306 / 100" 6890507429876859]
    fl_near [of "- 1" "99 / 100" 8917127262193582]
    fl_near [of 2 "512 / 100" 5764607523034235]
    fl_near [of 0 "199 / 100" 8962163258467287]
    fl_near [of 3 "1224 / 100" 6890507429876859]
    fl_near [of 1 "399 / 100" 8984681256604140]
  by simp_all

lemma lit_values:
  "lit (306 / 100) = Fin (6890507429876859 / 2 ^ 51)"
  "lit (99 / 100) = Fin (8917127262193582 / 2 ^ 53)"
  "lit (512 / 100) = Fin (5764607523034235 / 2 ^ 50)"
  "lit (199 / 100) = Fin (8962163258467287 / 2 ^ 52)"
  "lit (1224 / 100) = Fin (6890507429876859 / 2 ^ 49)"
  "lit (399 / 100) = Fin (8984681256604140 / 2 ^ 51)"
  by (simp_all only: lit_def round_number_def fl_literals Let_def) simp_all

lemma gpuPrices_values:
  "gpuPrices ''T4'' =
     Some \<lparr>aws = Fin (6890507429876859 / 2 ^ 51), ours = Fin (8917127262193582 / 2 ^ 53)\<rparr>"
  "gpuPrices ''A10G'' =
     Some \<lparr>aws = Fin (5764607523034235 / 2 ^ 50), ours = Fin (8962163258467287 / 2 ^ 52)\<rparr>"
  "gpuPrices ''A100'' =
     Some \<lparr>aws = Fin (6890507429876859 / 2 ^ 49), ours = Fin (8984681256604140 / 2 ^ 51)\<rparr>"
  by (simp_all only: gpuPrices_def lit_values) simp_all

lemma toFixed0_near:
  assumes "of_nat k - 1 / 2 \<le> x" and "x < of_nat k + 1 / 2" and "0 \<le> x" and "x < 1000"
  shows "toFixed 0 (Fin x) = Digits False k 0"
proof -
  have "\<lfloor>x + 1 / 2\<rfloor> = int k"
  proof (rule floor_unique)
    show "of_int (int k) \<le> x + 1 / 2" using assms(1) by simp
    show "x + 1 / 2 < of_int (int k) + 1" using assms(2) by simp
  qed
  moreover have "\<not> 10 ^ 21 \<le> \<bar>x\<bar>" using assms(3,4) by simp
  ultimately show ?thesis using assms(3) by simp
qed

lemma calculator_generic:
  fixes h a c :: rat
  assumes p: "gpuPrices g = Some \<lparr>aws = Fin a, ours = Fin c\<rparr>"
    and h: "2 powi (- 1021) \<le> h" "h \<le> 2 ^ 1017"
    and a: "2 \<le> a" "a \<le> 16" and c: "1 / 2 \<le> c" "2 * c \<le> a"
    and lo: "of_nat k - 1 / 2 \<le>
               100 * (1 - c * (1 + 1 / 2 ^ 53) / (a * (1 - 1 / 2 ^ 53))) * (1 - 1 / 2 ^ 53) ^ 3"
    and hi: "100 * (1 - c * (1 - 1 / 2 ^ 53) / (a * (1 + 1 / 2 ^ 53))) * (1 + 1 / 2 ^ 53) ^ 3
               < of_nat k + 1 / 2"
  shows "CostCalculator (Fin h) g =
           Inr \<lparr>awsCost = Fin (fl (h * a)), ourCost = Fin (fl (h * c)),
                 savings = Fin (fl (fl (h * a) - fl (h * c))),
                 savingsPercent = Digits False k 0\<rparr>"
proof -
  define A where "A = fl (h * a)"
  define B where "B = fl (h * c)"
  define S where "S = fl (A - B)"
  define Q where "Q = fl (S / A)"
  define P where "P = fl (Q * 100)"
  note ch = calc_chain [OF h a c, folded A_def B_def, folded S_def, folded Q_def, folded P_def]
  have hpos: "0 < h"
  proof -
    have "(0::rat) < 2 powi (- 1021)" by (rule zero_less_power_int) simp
    with h(1) show ?thesis by linarith
  qed
  have d: "c * (1 + 1 / 2 ^ 53) \<le> a * (1 - 1 / 2 ^ 53)" using c a by simp
  have apos: "0 < a" and cpos: "0 < c" using a c by simp_all
  have e: "(0::rat) < 1 / 2 ^ 53" "(1::rat) / 2 ^ 53 < 1" by simp_all
  note pc = percent_chain [OF e hpos apos cpos d
      conjunct1 [OF ch(2)] conjunct2 [OF ch(2)] conjunct1 [OF ch(3)] conjunct2 [OF ch(3)]
      conjunct1 [OF ch(4)] conjunct2 [OF ch(4)] conjunct1 [OF ch(5)] conjunct2 [OF ch(5)]
      conjunct1 [OF ch(6)] conjunct2 [OF ch(6)]]
  have "of_nat k - 1 / 2 \<le> P" using lo pc(1) by (rule order_trans)
  moreover have "P < of_nat k + 1 / 2" using pc(2) hi by (rule le_less_trans)
  moreover have "0 \<le> P" "P < 1000" using ch(7) by simp_all
  ultimately have tf: "toFixed 0 (Fin P) = Digits False k 0" by (rule toFixed0_near)
  show ?thesis
    using ch(1) tf by (simp add: CostCalculator_def price_of_def p Let_def A_def B_def S_def Q_def P_def)
qed

lemma calculator_T4:
  assumes "2 powi (- 1021) \<le> h" and "h \<le> 2 ^ 1017"
  shows "CostCalculator (Fin h) ''T4'' =
           Inr \<lparr>awsCost = Fin (fl (h * (6890507429876859 / 2 ^ 51))),
                 ourCost = Fin (fl (h * (8917127262193582 / 2 ^ 53))),
                 savings = Fin (fl (fl (h * (6890507429876859 / 2 ^ 51)) -
                                    fl (h * (8917127262193582 / 2 ^ 53)))),
                 savingsPercent = Digits False 68 0\<rparr>"
  by (rule calculator_generic [OF gpuPrices_values(1) assms]) (simp_all add: power_divide)

lemma calculator_A10G:
  assumes "2 powi (- 1021) \<le> h" and "h \<le> 2 ^ 1017"
  shows "CostCalculator (Fin h) ''A10G'' =
           Inr \<lparr>awsCost = Fin (fl (h * (5764607523034235 / 2 ^ 50))),
                 ourCost = Fin (fl (h * (8962163258467287 / 2 ^ 52))),
                 savings = Fin (fl (fl (h * (5764607523034235 / 2 ^ 50)) -
                                    fl (h * (8962163258467287 / 2 ^ 52)))),
                 savingsPercent = Digits False 61 0\<rparr>"
  by (rule calculator_generic [OF gpuPrices_values(2) assms]) (simp_all add: power_divide)

lemma calculator_A100:
  assumes "2 powi (- 1021) \<le> h" and "h \<le> 2 ^ 1017"
  shows "CostCalculator (Fin h) ''A100'' =
           Inr \<lparr>awsCost = Fin (fl (h * (6890507429876859 / 2 ^ 49))),
                 ourCost = Fin (fl (h * (8984681256604140 / 2 ^ 51))),
                 savings = Fin (fl (fl (h * (6890507429876859 / 2 ^ 49)) -
                                    fl (h * (8984681256604140 / 2 ^ 51)))),
                 savingsPercent = Digits False 67 0\<rparr>"
  by (rule calculator_generic [OF gpuPrices_values(3) assms]) (simp_all add: power_divide)

lemma round_number_near:
  assumes "2 powi e \<le> \<bar>x\<bar>" and "\<bar>x\<bar> < 2 powi (e + 1)" and "- 1022 \<le> e"
    and "\<bar>x / 2 powi (e - 52) - of_int n\<bar> < 1 / 2"
    and "y = of_int n * 2 powi (e - 52)" and "\<bar>y\<bar> < 2 ^ 1024"
  shows "round_number x = Fin y"
proof -
  have "fl x = y" unfolding assms(5) by (rule fl_near [OF assms(1-4)])
  with assms(6) show ?thesis by (simp add: round_number_def Let_def not_le abs_less_iff)
qed

lemma fl_subnormal_near:
  assumes "\<bar>x\<bar> < 2 powi (- 1022)" and "\<bar>x / 2 powi (- 1074) - of_int n\<bar> < 1 / 2"
  shows "fl x = of_int n * 2 powi (- 1074)"
  by (simp only: fl_subnormal [OF assms(1)] round_half_even_near [OF assms(2)])

lemma round_number_subnormal_near:
  assumes "\<bar>x\<bar> < 2 powi (- 1022)" and "\<bar>x / 2 powi (- 1074) - of_int n\<bar> < 1 / 2"
    and "y = of_int n * 2 powi (- 1074)" and "\<bar>y\<bar> < 2 ^ 1024"
  shows "round_number x = Fin y"
proof -
  have "fl x = y" unfolding assms(3) by (rule fl_subnormal_near [OF assms(1,2)])
  with assms(4) show ?thesis by (simp add: round_number_def Let_def not_le abs_less_iff)
qed

lemma round_number_overflow:
  assumes "2 powi e \<le> \<bar>x\<bar>" and "\<bar>x\<bar> < 2 powi (e + 1)" and "- 1022 \<le> e"
    and "\<bar>x / 2 powi (e - 52) - of_int n\<bar> < 1 / 2"
    and "(2::rat) ^ 1024 \<le> of_int n * 2 powi (e - 52)"
  shows "round_number x = PInf"
proof -
  have "fl x = of_int n * 2 powi (e - 52)" by (rule fl_near [OF assms(1-4)])
  with assms(5) show ?thesis by (simp add: round_number_def Let_def)
qed

lemma toFixed_near:
  assumes "of_nat k - 1 / 2 \<le> x * 10 ^ f" and "x * 10 ^ f < of_nat k + 1 / 2"
    and "0 \<le> x" and "x < 10 ^ 21"
  shows "toFixed f (Fin x) = Digits False k f"
proof -
  have "\<lfloor>x * 10 ^ f + 1 / 2\<rfloor> = int k"
  proof (rule floor_unique)
    show "of_int (int k) \<le> x * 10 ^ f + 1 / 2" using assms(1) by simp
    show "x * 10 ^ f + 1 / 2 < of_int (int k) + 1" using assms(2) by simp
  qed
  moreover have "\<not> 10 ^ 21 \<le> \<bar>x\<bar>" using assms(3,4) by simp
  ultimately show ?thesis using assms(3) by simp
qed

lemma calculator_steps:
  assumes "gpuPrices g = Some \<lparr>aws = Fin a, ours = Fin c\<rparr>"
    and "round_number (h * a) = Fin A" and "round_number (h * c) = Fin B"
    and "round_number (A - B) = Fin S" and "A \<noteq> 0" and "round_number (S / A) = Fin Q"
    and "round_number (Q * 100) = Fin P" and "toFixed 0 (Fin P) = D"
  shows "CostCalculator (Fin h) g =
           Inr \<lparr>awsCost = Fin A, ourCost = Fin B, savings = Fin S, savingsPercent = D\<rparr>"
  using assms by (simp add: CostCalculator_def price_of_def Let_def)


lemma fl_twice:
  assumes "fl h = h"
  shows "fl (2 * h) = 2 * h"
proof (cases "h = 0")
  case True
  then show ?thesis by (simp add: fl_def)
next
  case False
  then have p: "0 < \<bar>h\<bar>" by simp
  define f where "f = floor_log2 \<bar>h\<bar>"
  have b: "2 powi f \<le> \<bar>h\<bar>" "\<bar>h\<bar> < 2 powi (f + 1)"
    using floor_log2_bounds [OF p] by (simp_all add: f_def)
  have s1: "(2::rat) powi (f + 1) = 2 powi f * 2" by (rule power_int_add_1) simp
  have s2: "(2::rat) powi (f + 1 + 1) = 2 powi (f + 1) * 2" by (rule power_int_add_1) simp
  have "2 powi (f + 1) \<le> \<bar>2 * h\<bar>" "\<bar>2 * h\<bar> < 2 powi (f + 1 + 1)"
    using b unfolding s2 by (simp_all add: s1 abs_mult)
  then have f2: "floor_log2 \<bar>2 * h\<bar> = f + 1" by (rule floor_log2_unique)
  from fl_fixed_grid [OF assms] obtain m where m: "h = of_int m * ulp h" ..
  show ?thesis
  proof (cases "- 1022 \<le> f")
    case True
    then have "max f (- 1022) = f" "max (f + 1) (- 1022) = f + 1" by simp_all
    then have u: "ulp h = 2 powi (f - 52)" "ulp (2 * h) = 2 powi (f + 1 - 52)"
      by (simp_all only: ulp_def f2 f_def [symmetric])
    have "(2::rat) powi (f - 52 + 1) = 2 powi (f - 52) * 2" by (rule power_int_add_1) simp
    then have "ulp (2 * h) = 2 * ulp h" by (simp add: u add.commute diff_add_eq)
    with m have "2 * h = of_int m * ulp (2 * h)" by simp
    then show ?thesis by (rule fl_grid)
  next
    case False
    then have "max f (- 1022) = - 1022" "max (f + 1) (- 1022) = - 1022" by simp_all
    then have "ulp (2 * h) = ulp h" by (simp only: ulp_def f2 f_def [symmetric])
    with m have "2 * h = of_int (2 * m) * ulp (2 * h)" by simp
    then show ?thesis by (rule fl_grid)
  qed
qed

lemma costs_ordered:
  assumes d: "fl h = h" and h: "0 < h" "h \<le> 2 ^ 1019"
    and c: "0 < c" "c \<le> p" and a: "2 * p \<le> a" "a \<le> 16" and p: "0 < p" "p \<le> 4"
    and fp: "fl (p * h) = p * h" and fp2: "fl (2 * p * h) = 2 * p * h"
    and f16: "fl (16 * h) = 16 * h"
  shows "\<exists>A B. round_number (h * a) = Fin A \<and> round_number (h * c) = Fin B \<and> B < A"
proof -
  have hc: "0 < h * c" using h c by simp
  have "h * c \<le> p * h" using c(2) h(1) by (simp add: mult.commute)
  with hc have B1: "fl (h * c) \<le> p * h" using fp by (intro fl_le_double)
  have "p * h \<le> 4 * 2 ^ 1019" using p h by (intro mult_mono) simp_all
  also have "\<dots> < (2::rat) ^ 1024" by simp
  finally have "p * h < 2 ^ 1024" .
  with B1 have B2: "fl (h * c) < 2 ^ 1024" by linarith
  have B0: "0 \<le> fl (h * c)" using hc by (intro fl_nonneg) simp
  from B0 B2 have rB: "round_number (h * c) = Fin (fl (h * c))" by (rule round_number_fl)
  have ph: "0 < 2 * p * h" using p h by simp
  have "2 * p * h \<le> h * a" using a(1) h(1) by (simp add: mult.commute)
  with ph have A1: "2 * p * h \<le> fl (h * a)" using fp2 by (intro fl_ge_double)
  have "0 < p * h" using p h by simp
  then have "p * h < 2 * p * h" by (simp add: mult.commute)
  with B1 A1 have lt: "fl (h * c) < fl (h * a)" by linarith
  have A0: "0 \<le> fl (h * a)" using A1 ph by linarith
  have ha: "0 < h * a" using h a p by simp
  have "h * a \<le> 16 * h" using a(2) h(1) by (simp add: mult.commute)
  with ha have A2: "fl (h * a) \<le> 16 * h" using f16 by (intro fl_le_double)
  have "16 * h \<le> 16 * 2 ^ 1019" using h by simp
  also have "\<dots> < (2::rat) ^ 1024" by simp
  finally have "16 * h < 2 ^ 1024" .
  with A2 have "fl (h * a) < 2 ^ 1024" by linarith
  with A0 have rA: "round_number (h * a) = Fin (fl (h * a))" by (rule round_number_fl)
  from rA rB lt show ?thesis by blast
qed

lemma calculator_ordered:
  assumes g: "gpuPrices g = Some \<lparr>aws = Fin a, ours = Fin c\<rparr>"
    and o: "\<exists>A B. round_number (h * a) = Fin A \<and> round_number (h * c) = Fin B \<and> B < A"
  shows "\<exists>r A B. CostCalculator (Fin h) g = Inr r \<and> awsCost r = Fin A \<and> ourCost r = Fin B \<and>
           B < A"
  using o by (auto simp: CostCalculator_def price_of_def g Let_def)

lemma spec_platform_below_provider:
  assumes "0 < h" and "g \<in> {''T4'', ''A10G'', ''A100''}"
  shows "\<exists>s. spec_calculator h g = Some s \<and> platform_cost s < provider_cost s"
  using assms by (auto simp: spec_calculator_def spec_price_def Let_def)

lemma spec_percent_independent:
  assumes "0 < h1" and "0 < h2"
  shows "map_option savings_percent (spec_calculator h1 g) =
         map_option savings_percent (spec_calculator h2 g)"
proof (cases "spec_price g")
  case None
  then show ?thesis by (simp add: spec_calculator_def)
next
  case (Some pr)
  obtain ra rc where pr: "pr = (ra, rc)" by (cases pr)
  have r: "(h * ra - h * rc) / (h * ra) = (ra - rc) / ra" if "0 < h" for h :: rat
  proof -
    have "(h * ra - h * rc) / (h * ra) = (h * (ra - rc)) / (h * ra)"
      by (simp add: right_diff_distrib)
    also have "\<dots> = (ra - rc) / ra" using that by simp
    finally show ?thesis .
  qed
  have e: "spec_calculator h g =
      Some \<lparr>provider_cost = h * ra, platform_cost = h * rc, spec_savings = h * ra - h * rc,
            savings_percent = round ((ra - rc) / ra * 100)\<rparr>" if "0 < h" for h
    by (simp only: spec_calculator_def Some pr option.case prod.case Let_def r [OF that])
  show ?thesis by (simp add: e [OF assms(1)] e [OF assms(2)])
qed

lemma calculator_other_key:
  assumes "g \<notin> {''T4'', ''A10G'', ''A100''}"
  shows "CostCalculator (Fin h) g =
           (if g \<in> set object_prototype_keys
            then Inr \<lparr>awsCost = NaN, ourCost = NaN, savings = NaN,
                       savingsPercent = Verbatim NaN\<rparr>
            else Inl TypeError)"
proof -
  from assms have "gpuPrices g = None" by (simp add: gpuPrices_def)
  then show ?thesis by (simp add: CostCalculator_def price_of_def Let_def)
qed

lemma spec_price_values:
  "spec_price ''T4'' = Some (306 / 100, 99 / 100)"
  "spec_price ''A10G'' = Some (512 / 100, 199 / 100)"
  "spec_price ''A100'' = Some (1224 / 100, 399 / 100)"
  by (simp_all add: spec_price_def)

lemma product_near:
  fixes h a ra A :: rat
  assumes h: "0 < h" "h \<le> 730" and ra: "0 < ra" "ra \<le> 16"
    and na: "\<bar>a - ra\<bar> \<le> ra / 2 ^ 53"
    and A: "h * a * (1 - 1 / 2 ^ 53) \<le> A \<and> A \<le> h * a * (1 + 1 / 2 ^ 53)"
  shows "\<bar>A - h * ra\<bar> \<le> 1 / 10 ^ 10"
proof -
  define X where "X = h * ra"
  have X: "0 < X" "X \<le> 730 * 16" unfolding X_def using h ra by (simp, intro mult_mono, simp_all)
  from na have "a - ra \<le> ra / 2 ^ 53" and "ra - a \<le> ra / 2 ^ 53" by linarith+
  then have a1: "a \<le> ra * (1 + 1 / 2 ^ 53)" and a2: "ra * (1 - 1 / 2 ^ 53) \<le> a"
    by (simp_all add: algebra_simps)
  have "h * a \<le> h * (ra * (1 + 1 / 2 ^ 53))" using a1 h(1) by (intro mult_left_mono) simp_all
  then have u: "h * a \<le> X * (1 + 1 / 2 ^ 53)" by (simp add: X_def mult.assoc)
  have "h * (ra * (1 - 1 / 2 ^ 53)) \<le> h * a" using a2 h(1) by (intro mult_left_mono) simp_all
  then have l: "X * (1 - 1 / 2 ^ 53) \<le> h * a" by (simp add: X_def mult.assoc)
  have "h * a * (1 + 1 / 2 ^ 53) \<le> X * (1 + 1 / 2 ^ 53) * (1 + 1 / 2 ^ 53)"
    using u by (intro mult_right_mono) simp_all
  with A have up: "A \<le> X * (1 + 1 / 2 ^ 53) * (1 + 1 / 2 ^ 53)" by linarith
  have "X * (1 - 1 / 2 ^ 53) * (1 - 1 / 2 ^ 53) \<le> h * a * (1 - 1 / 2 ^ 53)"
    using l by (intro mult_right_mono) simp_all
  with A have low: "X * (1 - 1 / 2 ^ 53) * (1 - 1 / 2 ^ 53) \<le> A" by linarith
  from up low X have "A - X \<le> 1 / 10 ^ 10" by (simp; linarith)
  moreover from up low X have "X - A \<le> 1 / 10 ^ 10" by (simp; linarith)
  ultimately show ?thesis unfolding X_def [symmetric] by (simp only: abs_le_iff) simp
qed


lemma contract_generic:
  fixes h a c ra rc :: rat
  assumes p: "gpuPrices g = Some \<lparr>aws = Fin a, ours = Fin c\<rparr>"
    and sp: "spec_price g = Some (ra, rc)"
    and h: "10 \<le> h" "h \<le> 730"
    and a: "2 \<le> a" "a \<le> 16" and c: "1 / 2 \<le> c" "2 * c \<le> a"
    and lo: "of_nat k - 1 / 2 \<le>
               100 * (1 - c * (1 + 1 / 2 ^ 53) / (a * (1 - 1 / 2 ^ 53))) * (1 - 1 / 2 ^ 53) ^ 3"
    and hi: "100 * (1 - c * (1 - 1 / 2 ^ 53) / (a * (1 + 1 / 2 ^ 53))) * (1 + 1 / 2 ^ 53) ^ 3
               < of_nat k + 1 / 2"
    and na: "\<bar>a - ra\<bar> \<le> ra / 2 ^ 53" and nc: "\<bar>c - rc\<bar> \<le> rc / 2 ^ 53"
    and r: "0 < rc" "rc < ra" "ra \<le> 16"
    and k: "of_nat k - 1 / 2 \<le> (ra - rc) / ra * 100" "(ra - rc) / ra * 100 < of_nat k + 1 / 2"
  shows "\<exists>A B S s.
           CostCalculator (Fin h) g =
             Inr \<lparr>awsCost = Fin A, ourCost = Fin B, savings = Fin S,
                   savingsPercent = Digits False (nat (savings_percent s)) 0\<rparr> \<and>
           spec_calculator h g = Some s \<and> 0 \<le> savings_percent s \<and>
           \<bar>A - provider_cost s\<bar> \<le> 1 / 10 ^ 9 \<and>
           \<bar>B - platform_cost s\<bar> \<le> 1 / 10 ^ 9 \<and>
           \<bar>S - spec_savings s\<bar> \<le> 1 / 10 ^ 9"
proof -
  have "(2::rat) powi (- 1021) \<le> 10" by simp
  with h have hr: "2 powi (- 1021) \<le> h" "h \<le> 2 ^ 1017" and hpos: "0 < h" by simp_all
  define A where "A = fl (h * a)"
  define B where "B = fl (h * c)"
  define S where "S = fl (A - B)"
  define s where "s = \<lparr>provider_cost = h * ra, platform_cost = h * rc,
    spec_savings = h * ra - h * rc, savings_percent = int k\<rparr>"
  note ch = calc_chain [OF hr a c, folded A_def B_def, folded S_def]
  have eq: "CostCalculator (Fin h) g =
      Inr \<lparr>awsCost = Fin A, ourCost = Fin B, savings = Fin S, savingsPercent = Digits False k 0\<rparr>"
    unfolding A_def B_def S_def by (rule calculator_generic [OF p hr a c lo hi])
  have ratio: "(h * ra - h * rc) / (h * ra) * 100 = (ra - rc) / ra * 100"
    using hpos r by (simp add: field_simps)
  have "round ((ra - rc) / ra * 100) = int k"
    unfolding round_def
  proof (rule floor_unique)
    show "of_int (int k) \<le> (ra - rc) / ra * 100 + 1 / 2" using k(1) by simp
    show "(ra - rc) / ra * 100 + 1 / 2 < of_int (int k) + 1" using k(2) by simp
  qed
  then have rnd: "round ((h * ra - h * rc) / (h * ra) * 100) = int k" by (simp only: ratio)
  have sc: "spec_calculator h g = Some s"
    by (simp only: spec_calculator_def sp option.case prod.case Let_def rnd s_def)
  have rapos: "0 < ra" using r by simp
  have dA: "\<bar>A - h * ra\<bar> \<le> 1 / 10 ^ 10"
    by (rule product_near [OF hpos h(2) rapos r(3) na ch(2)])
  have rc16: "rc \<le> 16" using r by simp
  have dB: "\<bar>B - h * rc\<bar> \<le> 1 / 10 ^ 10"
    by (rule product_near [OF hpos h(2) r(1) rc16 nc ch(3)])
  have X: "h * ra \<le> 730 * 16" using h hpos r by (intro mult_mono) simp_all
  have Y: "0 < h * rc" using hpos r by simp
  from dA have eA: "A - h * ra \<le> 1 / 10 ^ 10" "h * ra - A \<le> 1 / 10 ^ 10" by linarith+
  from dB have eB: "B - h * rc \<le> 1 / 10 ^ 10" "h * rc - B \<le> 1 / 10 ^ 10" by linarith+
  have "S - (h * ra - h * rc) \<le> 1 / 10 ^ 9"
    using ch(4) eA eB X Y by (simp; linarith)
  moreover have "(h * ra - h * rc) - S \<le> 1 / 10 ^ 9"
    using ch(4) eA eB X Y by (simp; linarith)
  ultimately have dS: "\<bar>S - (h * ra - h * rc)\<bar> \<le> 1 / 10 ^ 9"
    by (simp only: abs_le_iff) simp
  have "\<bar>A - provider_cost s\<bar> \<le> 1 / 10 ^ 9" using dA by (simp add: s_def)
  moreover have "\<bar>B - platform_cost s\<bar> \<le> 1 / 10 ^ 9" using dB by (simp add: s_def)
  moreover have "\<bar>S - spec_savings s\<bar> \<le> 1 / 10 ^ 9" using dS by (simp add: s_def)
  moreover have "0 \<le> savings_percent s" by (simp add: s_def)
  moreover have "CostCalculator (Fin h) g =
      Inr \<lparr>awsCost = Fin A, ourCost = Fin B, savings = Fin S,
            savingsPercent = Digits False (nat (savings_percent s)) 0\<rparr>"
    using eq by (simp add: s_def)
  ultimately show ?thesis using sc by blast
qed

text \<open>
  C1. For every hours value between 10 and 730 and each of the three GPU types the
  component computes the contract: its three amounts are the binary64 results of
  \<^verbatim>\<open>hours * price.aws\<close>, \<^verbatim>\<open>hours * price.ours\<close> and their difference, each within
  \<open>10\<^sup>-\<^sup>9\<close> of the exact provider cost, platform cost and savings of the contract over the
  price table (3.06, 0.99), (5.12, 1.99), (12.24, 3.99), and the percentage it shows is the
  contract's \<open>round (savings / provider_cost * 100)\<close>.
\<close>

theorem calculator_meets_contract:
  assumes "10 \<le> h" and "h \<le> 730" and "g \<in> {''T4'', ''A10G'', ''A100''}"
  shows "\<exists>A B S s.
           CostCalculator (Fin h) g =
             Inr \<lparr>awsCost = Fin A, ourCost = Fin B, savings = Fin S,
                   savingsPercent = Digits False (nat (savings_percent s)) 0\<rparr> \<and>
           spec_calculator h g = Some s \<and> 0 \<le> savings_percent s \<and>
           \<bar>A - provider_cost s\<bar> \<le> 1 / 10 ^ 9 \<and>
           \<bar>B - platform_cost s\<bar> \<le> 1 / 10 ^ 9 \<and>
           \<bar>S - spec_savings s\<bar> \<le> 1 / 10 ^ 9"
proof -
  consider "g = ''T4''" | "g = ''A10G''" | "g = ''A100''" using assms(3) by auto
  then show ?thesis
  proof cases
    case 1
    show ?thesis unfolding 1
      by (rule contract_generic [OF gpuPrices_values(1) spec_price_values(1) assms(1,2),
            where k = 68]) (simp_all add: power_divide)
  next
    case 2
    show ?thesis unfolding 2
      by (rule contract_generic [OF gpuPrices_values(2) spec_price_values(2) assms(1,2),
            where k = 61]) (simp_all add: power_divide)
  next
    case 3
    show ?thesis unfolding 3
      by (rule contract_generic [OF gpuPrices_values(3) spec_price_values(3) assms(1,2),
            where k = 67]) (simp_all add: power_divide)
  qed
qed

theorem calculator_meets_contract_witness:
  "(10::rat) \<le> 100 \<and> (100::rat) \<le> 730 \<and> ''A10G'' \<in> {''T4'', ''A10G'', ''A100''} \<and>
   (\<exists>A B S s.
      CostCalculator (Fin 100) ''A10G'' =
        Inr \<lparr>awsCost = Fin A, ourCost = Fin B, savings = Fin S,
              savingsPercent = Digits False (nat (savings_percent s)) 0\<rparr> \<and>
      spec_calculator 100 ''A10G'' = Some s \<and> 0 \<le> savings_percent s \<and>
      \<bar>A - provider_cost s\<bar> \<le> 1 / 10 ^ 9 \<and>
      \<bar>B - platform_cost s\<bar> \<le> 1 / 10 ^ 9 \<and>
      \<bar>S - spec_savings s\<bar> \<le> 1 / 10 ^ 9)"
proof -
  have h1: "(10::rat) \<le> 100" by simp
  have h2: "(100::rat) \<le> 730" by simp
  have h3: "''A10G'' \<in> {''T4'', ''A10G'', ''A100''}" by simp
  from calculator_meets_contract [OF h1 h2 h3] h1 h2 h3 show ?thesis by blast
qed

text \<open>
  C2. The worked example: for 100 hours on an A10G the calculator's numbers are exactly 512,
  199 and 313, shown with two fraction digits as 512.00, 199.00 and 313.00, and the
  percentage shown is 61.
\<close>

theorem example_100_hours_A10G:
  "CostCalculator (Fin 100) ''A10G'' =
     Inr \<lparr>awsCost = Fin 512, ourCost = Fin 199, savings = Fin 313,
           savingsPercent = Digits False 61 0\<rparr> \<and>
   toFixed 2 (Fin 512) = Digits False 51200 2 \<and>
   toFixed 2 (Fin 199) = Digits False 19900 2 \<and>
   toFixed 2 (Fin 313) = Digits False 31300 2"
proof -
  have A: "round_number (100 * (5764607523034235 / 2 ^ 50)) = Fin 512"
    by (rule round_number_near [where e = 9 and n = 4503599627370496]) simp_all
  have B: "round_number (100 * (8962163258467287 / 2 ^ 52)) = Fin 199"
    by (rule round_number_near [where e = 7 and n = 7001690045677568]) simp_all
  have S: "round_number (512 - 199) = Fin 313"
    by (rule round_number_near [where e = 8 and n = 5506354231902208]) simp_all
  have Q: "round_number (313 / 512) = Fin (313 / 512)"
    by (rule round_number_near [where e = "- 1" and n = 5506354231902208]) simp_all
  have P: "round_number (313 / 512 * 100) = Fin (7825 / 128)"
    by (rule round_number_near [where e = 5 and n = 8603678487347200]) simp_all
  have D: "toFixed 0 (Fin (7825 / 128)) = Digits False 61 0"
    by (rule toFixed_near) simp_all
  have "CostCalculator (Fin 100) ''A10G'' =
     Inr \<lparr>awsCost = Fin 512, ourCost = Fin 199, savings = Fin 313,
           savingsPercent = Digits False 61 0\<rparr>"
    by (rule calculator_steps [OF gpuPrices_values(2) A B S _ Q P D]) simp
  moreover have "toFixed 2 (Fin 512) = Digits False 51200 2"
    by (rule toFixed_near) simp_all
  moreover have "toFixed 2 (Fin 199) = Digits False 19900 2"
    by (rule toFixed_near) simp_all
  moreover have "toFixed 2 (Fin 313) = Digits False 31300 2"
    by (rule toFixed_near) simp_all
  ultimately show ?thesis by blast
qed


text \<open>
  C7. For each of the three GPU types and every number of hours \<open>h > 0\<close> the platform
  cost is below the provider cost: in the exact arithmetic of the contract for every
  \<open>h > 0\<close>, and in the binary64 arithmetic of the component, with both costs finite, for
  every finite number \<open>h\<close> with \<open>0 < h \<le> 2 ^ 1019\<close>. That range holds every value that
  the range input (10 to 730), the only writer of \<^verbatim>\<open>hours\<close>, can produce.
\<close>

theorem platform_cost_below_provider_cost:
  assumes "0 < h" and "g \<in> {''T4'', ''A10G'', ''A100''}"
  shows "(\<exists>s. spec_calculator h g = Some s \<and> platform_cost s < provider_cost s) \<and>
         (is_double h \<and> h \<le> 2 ^ 1019 \<longrightarrow>
            (\<exists>r A B. CostCalculator (Fin h) g = Inr r \<and> awsCost r = Fin A \<and>
               ourCost r = Fin B \<and> B < A))"
proof (intro conjI impI)
  show "\<exists>s. spec_calculator h g = Some s \<and> platform_cost s < provider_cost s"
    using assms by (rule spec_platform_below_provider)
next
  assume dh: "is_double h \<and> h \<le> 2 ^ 1019"
  then have d: "fl h = h" and hb: "h \<le> 2 ^ 1019" by (simp_all add: is_double_def)
  have d1: "fl (1 * h) = 1 * h" using d by simp
  have d2: "fl (2 * h) = 2 * h" using d by (rule fl_twice)
  have d4: "fl (4 * h) = 4 * h" using fl_twice [OF d2] by simp
  have d8: "fl (8 * h) = 8 * h" using fl_twice [OF d4] by simp
  have d16: "fl (16 * h) = 16 * h" using fl_twice [OF d8] by simp
  consider "g = ''T4''" | "g = ''A10G''" | "g = ''A100''" using assms(2) by auto
  then show "\<exists>r A B. CostCalculator (Fin h) g = Inr r \<and> awsCost r = Fin A \<and>
               ourCost r = Fin B \<and> B < A"
  proof cases
    case 1
    have "\<exists>A B. round_number (h * (6890507429876859 / 2 ^ 51)) = Fin A \<and>
            round_number (h * (8917127262193582 / 2 ^ 53)) = Fin B \<and> B < A"
      using d1 d2 d16 by (intro costs_ordered [OF d assms(1) hb, where p = 1]) simp_all
    then show ?thesis unfolding 1 by (rule calculator_ordered [OF gpuPrices_values(1)])
  next
    case 2
    have "\<exists>A B. round_number (h * (5764607523034235 / 2 ^ 50)) = Fin A \<and>
            round_number (h * (8962163258467287 / 2 ^ 52)) = Fin B \<and> B < A"
      using d2 d4 d16 by (intro costs_ordered [OF d assms(1) hb, where p = 2]) simp_all
    then show ?thesis unfolding 2 by (rule calculator_ordered [OF gpuPrices_values(2)])
  next
    case 3
    have "\<exists>A B. round_number (h * (6890507429876859 / 2 ^ 49)) = Fin A \<and>
            round_number (h * (8984681256604140 / 2 ^ 51)) = Fin B \<and> B < A"
      using d4 d8 d16 by (intro costs_ordered [OF d assms(1) hb, where p = 4]) simp_all
    then show ?thesis unfolding 3 by (rule calculator_ordered [OF gpuPrices_values(3)])
  qed
qed

theorem platform_cost_below_provider_cost_witness:
  "(0::rat) < 100 \<and> ''T4'' \<in> {''T4'', ''A10G'', ''A100''} \<and> is_double 100 \<and>
   (100::rat) \<le> 2 ^ 1019 \<and>
   (\<exists>s. spec_calculator 100 ''T4'' = Some s \<and> platform_cost s < provider_cost s) \<and>
   (\<exists>r A B. CostCalculator (Fin 100) ''T4'' = Inr r \<and> awsCost r = Fin A \<and>
      ourCost r = Fin B \<and> B < A)"
proof -
  have "fl (of_int 100) = (of_int 100 :: rat)" by (rule fl_of_int) simp_all
  then have h1: "is_double 100" by (simp add: is_double_def)
  have h2: "(0::rat) < 100" by simp
  have h3: "(100::rat) \<le> 2 ^ 1019" by simp
  have h4: "''T4'' \<in> {''T4'', ''A10G'', ''A100''}" by simp
  from platform_cost_below_provider_cost [OF h2 h4] h1 h2 h3 h4 show ?thesis by blast
qed



text \<open>
  C8. For every key string and any two numbers of hours \<open>h1 > 0\<close> and \<open>h2 > 0\<close> the
  percentage is the same: in the exact arithmetic of the contract for all such hours, and
  in the binary64 arithmetic of the component for all hours between \<open>2 powi - 1021\<close> and
  \<open>2 ^ 1017\<close>, a range that holds every value that the range input (10 to 730) can
  produce. There the percentage shown is 68 for T4, 61 for A10G, 67 for A100 and NaN for a
  name inherited from \<^verbatim>\<open>Object.prototype\<close>; for any other string both computations throw.
\<close>

theorem savings_percent_independent_of_hours:
  assumes "0 < h1" and "0 < h2"
  shows "map_option savings_percent (spec_calculator h1 g) =
           map_option savings_percent (spec_calculator h2 g) \<and>
         (2 powi (- 1021) \<le> h1 \<and> h1 \<le> 2 ^ 1017 \<and> 2 powi (- 1021) \<le> h2 \<and> h2 \<le> 2 ^ 1017 \<longrightarrow>
            (\<exists>r1 r2. CostCalculator (Fin h1) g = Inr r1 \<and> CostCalculator (Fin h2) g = Inr r2 \<and>
               savingsPercent r1 = savingsPercent r2 \<and>
               savingsPercent r1 =
                 (if g = ''T4'' then Digits False 68 0
                  else if g = ''A10G'' then Digits False 61 0
                  else if g = ''A100'' then Digits False 67 0
                  else Verbatim NaN)) \<or>
            (g \<notin> {''T4'', ''A10G'', ''A100''} \<and>
             CostCalculator (Fin h1) g = Inl TypeError \<and>
             CostCalculator (Fin h2) g = Inl TypeError))"
proof (intro conjI impI)
  show "map_option savings_percent (spec_calculator h1 g) =
          map_option savings_percent (spec_calculator h2 g)"
    using assms by (rule spec_percent_independent)
next
  assume "2 powi (- 1021) \<le> h1 \<and> h1 \<le> 2 ^ 1017 \<and> 2 powi (- 1021) \<le> h2 \<and> h2 \<le> 2 ^ 1017"
  then have b1: "2 powi (- 1021) \<le> h1" "h1 \<le> 2 ^ 1017"
    and b2: "2 powi (- 1021) \<le> h2" "h2 \<le> 2 ^ 1017" by blast+
  consider "g = ''T4''" | "g = ''A10G''" | "g = ''A100''" | "g \<notin> {''T4'', ''A10G'', ''A100''}"
    by auto
  then show "(\<exists>r1 r2. CostCalculator (Fin h1) g = Inr r1 \<and> CostCalculator (Fin h2) g = Inr r2 \<and>
               savingsPercent r1 = savingsPercent r2 \<and>
               savingsPercent r1 =
                 (if g = ''T4'' then Digits False 68 0
                  else if g = ''A10G'' then Digits False 61 0
                  else if g = ''A100'' then Digits False 67 0
                  else Verbatim NaN)) \<or>
            (g \<notin> {''T4'', ''A10G'', ''A100''} \<and>
             CostCalculator (Fin h1) g = Inl TypeError \<and>
             CostCalculator (Fin h2) g = Inl TypeError)"
  proof cases
    case 1
    show ?thesis unfolding 1
      by (simp only: calculator_T4 [OF b1] calculator_T4 [OF b2]) simp
  next
    case 2
    show ?thesis unfolding 2
      by (simp only: calculator_A10G [OF b1] calculator_A10G [OF b2]) simp
  next
    case 3
    show ?thesis unfolding 3
      by (simp only: calculator_A100 [OF b1] calculator_A100 [OF b2]) simp
  next
    case 4
    show ?thesis
    proof (cases "g \<in> set object_prototype_keys")
      case True
      with 4 show ?thesis by (simp add: calculator_other_key)
    next
      case False
      with 4 show ?thesis by (simp add: calculator_other_key)
    qed
  qed
qed

theorem savings_percent_independent_of_hours_witness:
  "(0::rat) < 10 \<and> (0::rat) < 730 \<and>
   (2::rat) powi (- 1021) \<le> 10 \<and> (10::rat) \<le> 2 ^ 1017 \<and>
   (2::rat) powi (- 1021) \<le> 730 \<and> (730::rat) \<le> 2 ^ 1017 \<and>
   map_option savings_percent (spec_calculator 10 ''A10G'') =
     map_option savings_percent (spec_calculator 730 ''A10G'') \<and>
   (\<exists>r1 r2. CostCalculator (Fin 10) ''A10G'' = Inr r1 \<and>
      CostCalculator (Fin 730) ''A10G'' = Inr r2 \<and> savingsPercent r1 = savingsPercent r2 \<and>
      savingsPercent r1 = Digits False 61 0)"
proof -
  have p1: "(0::rat) < 10" by simp
  have p2: "(0::rat) < 730" by simp
  have h1: "(2::rat) powi (- 1021) \<le> 10" by simp
  have h2: "(10::rat) \<le> 2 ^ 1017" by simp
  have h3: "(2::rat) powi (- 1021) \<le> 730" by simp
  have h4: "(730::rat) \<le> 2 ^ 1017" by simp
  from savings_percent_independent_of_hours [OF p1 p2, of "''A10G''"] p1 p2 h1 h2 h3 h4
  show ?thesis by simp
qed

text \<open>
  Why the binary64 parts of the two theorems above bound the hours. Far outside the reach
  of the range input the products overflow or become subnormal: for \<open>2 ^ 1023\<close> hours on an
  A100 both costs are infinite, and for \<open>2 powi - 1074\<close> hours (the smallest positive
  number) on a T4 the costs round to 3 and 1 units of the last place, so that the percentage
  shown is 67 instead of the 68 shown for 100 hours.
\<close>

lemma both_costs_overflow_at_2_pow_1023:
  "CostCalculator (Fin (2 ^ 1023)) ''A100'' =
     Inr \<lparr>awsCost = PInf, ourCost = PInf, savings = NaN, savingsPercent = Verbatim NaN\<rparr> \<and>
   \<not> js_lt PInf PInf \<and> is_double (2 ^ 1023) \<and> (0::rat) < 2 ^ 1023"
proof -
  have A: "round_number (2 ^ 1023 * (6890507429876859 / 2 ^ 49)) = PInf"
    by (rule round_number_overflow [where e = 1026 and n = 6890507429876859]) simp_all
  have B: "round_number (2 ^ 1023 * (8984681256604140 / 2 ^ 51)) = PInf"
    by (rule round_number_overflow [where e = 1024 and n = 8984681256604140]) simp_all
  have 1: "CostCalculator (Fin (2 ^ 1023)) ''A100'' =
     Inr \<lparr>awsCost = PInf, ourCost = PInf, savings = NaN, savingsPercent = Verbatim NaN\<rparr>"
    using A B by (simp add: CostCalculator_def price_of_def gpuPrices_values Let_def del: power_numeral)
  have "fl (2 ^ 1023) = of_int (2 ^ 52) * 2 powi (1023 - 52)"
    by (rule fl_near) simp_all
  then have 2: "is_double (2 ^ 1023)" by (simp add: is_double_def)
  from 1 2 show ?thesis by simp
qed

lemma percentage_at_smallest_positive_hours:
  "CostCalculator (Fin (2 powi (- 1074))) ''T4'' =
     Inr \<lparr>awsCost = Fin (3 * 2 powi (- 1074)), ourCost = Fin (2 powi (- 1074)),
           savings = Fin (2 * 2 powi (- 1074)), savingsPercent = Digits False 67 0\<rparr> \<and>
   CostCalculator (Fin 100) ''T4'' =
     Inr \<lparr>awsCost = Fin 306, ourCost = Fin 99, savings = Fin 207,
           savingsPercent = Digits False 68 0\<rparr> \<and>
   is_double (2 powi (- 1074)) \<and> is_double 100"
proof -
  have A: "round_number (2 powi (- 1074) * (6890507429876859 / 2 ^ 51)) = Fin (3 * 2 powi (- 1074))"
    by (rule round_number_subnormal_near [where n = 3]) simp_all
  have B: "round_number (2 powi (- 1074) * (8917127262193582 / 2 ^ 53)) = Fin (2 powi (- 1074))"
    by (rule round_number_subnormal_near [where n = 1]) simp_all
  have S: "round_number (3 * 2 powi (- 1074) - 2 powi (- 1074)) = Fin (2 * 2 powi (- 1074))"
    by (rule round_number_subnormal_near [where n = 2]) simp_all
  have Q: "round_number (2 * 2 powi (- 1074) / (3 * 2 powi (- 1074))) = Fin (6004799503160661 / 2 ^ 53)"
    by (rule round_number_near [where e = "- 1" and n = 6004799503160661]) simp_all
  have P: "round_number (6004799503160661 / 2 ^ 53 * 100) = Fin (4691249611844266 / 2 ^ 46)"
    by (rule round_number_near [where e = 6 and n = 4691249611844266]) simp_all
  have D: "toFixed 0 (Fin (4691249611844266 / 2 ^ 46)) = Digits False 67 0"
    by (rule toFixed_near) simp_all
  have 1: "CostCalculator (Fin (2 powi (- 1074))) ''T4'' =
     Inr \<lparr>awsCost = Fin (3 * 2 powi (- 1074)), ourCost = Fin (2 powi (- 1074)),
           savings = Fin (2 * 2 powi (- 1074)), savingsPercent = Digits False 67 0\<rparr>"
    by (rule calculator_steps [OF gpuPrices_values(1) A B S _ Q P D]) simp
  have A': "round_number (100 * (6890507429876859 / 2 ^ 51)) = Fin 306"
    by (rule round_number_near [where e = 8 and n = 5383208929591296]) simp_all
  have B': "round_number (100 * (8917127262193582 / 2 ^ 53)) = Fin 99"
    by (rule round_number_near [where e = 6 and n = 6966505673588736]) simp_all
  have S': "round_number (306 - 99) = Fin 207"
    by (rule round_number_near [where e = 7 and n = 7283165022388224]) simp_all
  have Q': "round_number (207 / 306) = Fin (6093105378207142 / 2 ^ 53)"
    by (rule round_number_near [where e = "- 1" and n = 6093105378207142]) simp_all
  have P': "round_number (6093105378207142 / 2 ^ 53 * 100) = Fin (4760238576724330 / 2 ^ 46)"
    by (rule round_number_near [where e = 6 and n = 4760238576724330]) simp_all
  have D': "toFixed 0 (Fin (4760238576724330 / 2 ^ 46)) = Digits False 68 0"
    by (rule toFixed_near) simp_all
  have 2: "CostCalculator (Fin 100) ''T4'' =
     Inr \<lparr>awsCost = Fin 306, ourCost = Fin 99, savings = Fin 207,
           savingsPercent = Digits False 68 0\<rparr>"
    by (rule calculator_steps [OF gpuPrices_values(1) A' B' S' _ Q' P' D']) simp
  have "fl (2 powi (- 1074)) = of_int 1 * 2 powi (- 1074)"
    by (rule fl_subnormal_near) simp_all
  then have 3: "is_double (2 powi (- 1074))" by (simp add: is_double_def)
  have "fl (of_int 100) = (of_int 100 :: rat)" by (rule fl_of_int) simp_all
  then have 4: "is_double 100" by (simp add: is_double_def)
  from 1 2 3 4 show ?thesis by blast
qed

section \<open>Properties of the instance action handler\<close>

lemma map_action_pause:
  "map_action rnd i ''pause'' k xs =
     (map (\<lambda>x. if id_inst x = i then x\<lparr>status := ''paused'', gpu_utilization := Fin 0\<rparr> else x) xs, k)"
  by (induction xs) simp_all

lemma map_action_other:
  "action \<noteq> ''pause'' \<Longrightarrow> action \<noteq> ''resume'' \<Longrightarrow> map_action rnd i action k xs = (xs, k)"
  by (induction xs) simp_all



lemma filter_distinct_split:
  "distinct (map f xs) \<Longrightarrow> y \<in> set xs \<Longrightarrow>
   \<exists>pre post. xs = pre @ y # post \<and> filter (\<lambda>x. f x \<noteq> f y) xs = pre @ post"
proof (induction xs)
  case Nil
  then show ?case by simp
next
  case (Cons x xs)
  show ?case
  proof (cases "x = y")
    case True
    with Cons.prems have "f y \<notin> f ` set xs" by simp
    then have "\<forall>z \<in> set xs. f z \<noteq> f y" by (metis imageI)
    then have "filter (\<lambda>x. f x \<noteq> f y) xs = xs" by (simp add: filter_id_conv)
    with True have "x # xs = [] @ y # xs \<and> filter (\<lambda>x. f x \<noteq> f y) (x # xs) = [] @ xs" by simp
    then show ?thesis by blast
  next
    case False
    with Cons.prems have yin: "y \<in> set xs" and d: "distinct (map f xs)" and ne: "f x \<noteq> f y" by auto
    from Cons.IH [OF d yin] obtain pre post where
      "xs = pre @ y # post" "filter (\<lambda>x. f x \<noteq> f y) xs = pre @ post" by blast
    with ne have "x # xs = (x # pre) @ y # post \<and> filter (\<lambda>x. f x \<noteq> f y) (x # xs) = (x # pre) @ post"
      by simp
    then show ?thesis by blast
  qed
qed

lemma map_action_inv:
  "list_all inv_inst xs \<Longrightarrow> list_all inv_inst (fst (map_action rnd i action k xs))"
  by (induction xs arbitrary: k) (auto simp: split_beta inv_inst_def)

lemma handle_inv:
  "list_all inv_inst (fst st) \<Longrightarrow> list_all inv_inst (fst (handleInstanceAction rnd i action st))"
  using map_action_inv [of "fst st" rnd i action "snd st"]
  by (auto simp: handleInstanceAction_def split_beta list_all_iff)

lemma run_inv:
  "list_all inv_inst (fst st) \<Longrightarrow> list_all inv_inst (fst (run_actions rnd calls st))"
  by (induction rnd calls st rule: run_actions.induct) (simp_all add: handle_inv)

lemma initial_inv: "list_all inv_inst initial_instances"
  by (simp add: initial_instances_def inv_inst_def)


text \<open>
  C3. Pausing: whatever the list and whatever the status of the record at position \<open>n\<close>
  before, if that record carries the id then after \<^verbatim>\<open>handleInstanceAction(id, 'pause')\<close> the
  list has the same length and the record at position \<open>n\<close> is the old one with status
  \<^verbatim>\<open>'paused'\<close> and utilization 0.
\<close>

theorem pause_sets_paused_zero:
  assumes "n < length insts" and "id_inst (insts ! n) = i"
  shows "length (fst (handleInstanceAction rnd i ''pause'' (insts, k))) = length insts \<and>
         fst (handleInstanceAction rnd i ''pause'' (insts, k)) ! n =
           (insts ! n)\<lparr>status := ''paused'', gpu_utilization := Fin 0\<rparr>"
  using assms by (simp add: handleInstanceAction_def map_action_pause)

theorem pause_sets_paused_zero_witness:
  "0 < length initial_instances \<and> id_inst (initial_instances ! 0) = ''gpu-1'' \<and>
   status (fst (handleInstanceAction (\<lambda>k. 1 / 2) ''gpu-1'' ''pause'' (initial_instances, 0)) ! 0) = ''paused'' \<and>
   gpu_utilization (fst (handleInstanceAction (\<lambda>k. 1 / 2) ''gpu-1'' ''pause'' (initial_instances, 0)) ! 0) = Fin 0"
proof -
  have h1: "0 < length initial_instances" by (simp add: initial_instances_def)
  have h2: "id_inst (initial_instances ! 0) = ''gpu-1''" by (simp add: initial_instances_def)
  from pause_sets_paused_zero [OF h1 h2, of "\<lambda>k. 1 / 2" 0] h1 h2 show ?thesis by simp
qed



text \<open>
  C5. Deleting: in a list whose ids are pairwise different, deleting the id of a record \<open>y\<close>
  of the list removes \<open>y\<close> and nothing else: the list was \<open>pre @ y # post\<close> and becomes
  \<open>pre @ post\<close>, the other records unchanged and in their order, and no record with that
  id is left. No random number is drawn.
\<close>

theorem delete_removes_exactly_that_record:
  assumes "distinct (map id_inst insts)" and "y \<in> set insts" and "id_inst y = i"
  shows "\<exists>pre post. insts = pre @ y # post \<and>
           handleInstanceAction rnd i ''delete'' (insts, k) = (pre @ post, k) \<and>
           i \<notin> id_inst ` set (pre @ post)"
proof -
  from filter_distinct_split [OF assms(1,2)] assms(3) obtain pre post where
    s: "insts = pre @ y # post" and f: "filter (\<lambda>x. id_inst x \<noteq> i) insts = pre @ post" by blast
  from f have "set (pre @ post) = {x \<in> set insts. id_inst x \<noteq> i}" by (metis set_filter)
  then have "i \<notin> id_inst ` set (pre @ post)" by auto
  with s f show ?thesis by (auto simp: handleInstanceAction_def map_action_other)
qed

theorem delete_removes_exactly_that_record_witness:
  "distinct (map id_inst initial_instances) \<and> initial_instances ! 1 \<in> set initial_instances \<and>
   (\<exists>pre post. initial_instances = pre @ initial_instances ! 1 # post \<and>
      handleInstanceAction (\<lambda>k. 1 / 2) ''gpu-2'' ''delete'' (initial_instances, 0) = (pre @ post, 0) \<and>
      ''gpu-2'' \<notin> id_inst ` set (pre @ post))"
proof -
  have h1: "distinct (map id_inst initial_instances)" by (simp add: initial_instances_def)
  have h2: "initial_instances ! 1 \<in> set initial_instances" by (simp add: initial_instances_def)
  have h3: "id_inst (initial_instances ! 1) = ''gpu-2''" by (simp add: initial_instances_def)
  from delete_removes_exactly_that_record [OF h1 h2 h3, of "\<lambda>k. 1 / 2" 0] h1 h2 show ?thesis by simp
qed

text \<open>
  C6. From the dashboard's initial list of three instances, after any finite sequence of
  calls of \<^verbatim>\<open>handleInstanceAction\<close> (any ids, any action strings, any random numbers), every
  record of the list with status \<^verbatim>\<open>'paused'\<close> has utilization 0, and the status of every
  record is one of \<^verbatim>\<open>'running'\<close>, \<^verbatim>\<open>'paused'\<close>, \<^verbatim>\<open>'stopped'\<close>.
\<close>

theorem invariant_after_any_calls:
  "\<forall>x \<in> set (fst (run_actions rnd calls (initial_instances, k))).
     (status x = ''paused'' \<longrightarrow> gpu_utilization x = Fin 0) \<and>
     status x \<in> {''running'', ''paused'', ''stopped''}"
proof -
  have "list_all inv_inst (fst (run_actions rnd calls (initial_instances, k)))"
    by (rule run_inv) (simp add: initial_inv)
  then show ?thesis by (auto simp: list_all_iff inv_inst_def)
qed

theorem invariant_after_any_calls_witness:
  "(initial_instances ! 0)\<lparr>status := ''paused'', gpu_utilization := Fin 0\<rparr>
     \<in> set (fst (run_actions (\<lambda>k. 1 / 2) [(''gpu-3'', ''delete''), (''gpu-1'', ''pause'')]
                  (initial_instances, 0))) \<and>
   status ((initial_instances ! 0)\<lparr>status := ''paused'', gpu_utilization := Fin 0\<rparr>) = ''paused'' \<and>
   gpu_utilization ((initial_instances ! 0)\<lparr>status := ''paused'', gpu_utilization := Fin 0\<rparr>) = Fin 0"
  using invariant_after_any_calls
    [of "\<lambda>k. 1 / 2" "[(''gpu-3'', ''delete''), (''gpu-1'', ''pause'')]" 0]
  by (simp add: initial_instances_def handleInstanceAction_def)

section \<open>Properties of the savings counter\<close>

lemma tick_of_nat:
  assumes "n \<le> 70"
  shows "tick (Fin (of_nat n)) = Fin (of_nat (min (Suc n) 70))"
proof (cases "n < 70")
  case True
  have "Suc n < 2 ^ 53" using True by simp
  from round_number_of_nat [OF this] True show ?thesis
    by (simp add: tick_def add.commute)
next
  case False
  with assms have "n = 70" by simp
  then show ?thesis by (simp add: tick_def)
qed

lemma ticks_from_0: "(tick ^^ n) (Fin 0) = Fin (of_nat (min n 70))"
proof (induction n)
  case 0
  show ?case by simp
next
  case (Suc n)
  have "min n 70 \<le> 70" by simp
  from tick_of_nat [OF this] Suc.IH show ?case by (simp add: min_def)
qed

text \<open>
  C9. The updater of the landing page's timer is a function of the previous counter value
  alone. Started at 0, after \<open>n\<close> ticks the counter is \<open>min n 70\<close>: it never exceeds 70,
  it never decreases, and a tick adds 1 to it while it is below 70 and leaves it at 70 from
  then on.
\<close>

theorem savings_counter_ticks:
  "(tick ^^ n) (Fin 0) = Fin (of_nat (min n 70)) \<and>
   \<not> js_lt (Fin 70) ((tick ^^ n) (Fin 0)) \<and>
   \<not> js_lt ((tick ^^ Suc n) (Fin 0)) ((tick ^^ n) (Fin 0)) \<and>
   (tick ^^ Suc n) (Fin 0) =
     (if n < 70 then js_add ((tick ^^ n) (Fin 0)) (Fin 1) else (tick ^^ n) (Fin 0))"
proof -
  have a: "(tick ^^ n) (Fin 0) = Fin (of_nat (min n 70))" by (rule ticks_from_0)
  have b: "(tick ^^ Suc n) (Fin 0) = Fin (of_nat (min (Suc n) 70))" by (rule ticks_from_0)
  have c: "\<not> js_lt (Fin 70) ((tick ^^ n) (Fin 0))" unfolding a by simp
  have d: "\<not> js_lt ((tick ^^ Suc n) (Fin 0)) ((tick ^^ n) (Fin 0))" unfolding a b by simp
  have e: "(tick ^^ Suc n) (Fin 0) =
     (if n < 70 then js_add ((tick ^^ n) (Fin 0)) (Fin 1) else (tick ^^ n) (Fin 0))"
  proof (cases "n < 70")
    case True
    then have "Suc n < 2 ^ 53" by simp
    from round_number_of_nat [OF this] True show ?thesis
      unfolding a b by (simp add: add.commute)
  next
    case False
    then show ?thesis unfolding a b by simp
  qed
  from a c d e show ?thesis by blast
qed

end
